theory Spec2Isabelle
  imports Complex_Main "HOL-Library.Word" "HOL-Library.Sublist"
begin

section \<open>The FunASR connection pool (app/funasr\_pool.py)\<close>

text \<open>
  \<open>PooledConnection\<close> objects are shared between the list \<open>connections\<close> and the
  dictionary \<open>user_connections\<close>, and the code mutates them through either reference.
  The model therefore keeps the objects in a store indexed by address; the list and the
  dictionary hold addresses. Every \<open>PooledConnection\<close> owns exactly one client, so the
  address also stands for the client that \<open>get_connection\<close> returns. The field
  \<open>client_connected\<close> is the value of \<open>conn.client.is_connected()\<close>. Every reading of
  \<open>time.time()\<close> inside one call is the parameter \<open>now\<close>.
\<close>

type_synonym addr = nat

record pooled_connection =
  client_connected :: bool
  created_at :: real
  last_used :: real
  in_use :: bool
  user_id :: "string option"

record pool =
  min_connections :: int
  max_connections :: int
  max_idle_time :: int
  connections :: "addr list"
  user_connections :: "string \<rightharpoonup> addr"
  initialized :: bool
  store :: "addr \<Rightarrow> pooled_connection"
  next_addr :: addr

text \<open>
  \<open>_create_connection\<close> talks to the network: \<open>client.connect()\<close> may raise, and so may
  \<open>client.send_config\<close>. The outcome is an input of the model.
\<close>

datatype create_outcome = ConnectRaises | SendConfigRaises | Created

definition new_connection :: "real \<Rightarrow> pooled_connection" where
  "new_connection now =
     \<lparr>client_connected = True, created_at = now, last_used = now,
      in_use = False, user_id = None\<rparr>"

definition new_pool :: "int \<Rightarrow> int \<Rightarrow> int \<Rightarrow> pool" where
  "new_pool mn mx idle =
     \<lparr>min_connections = mn, max_connections = mx, max_idle_time = idle,
      connections = [], user_connections = Map.empty, initialized = False,
      store = (\<lambda>_. new_connection 0), next_addr = 0\<rparr>"

text \<open>One round of the loop in \<open>initialize\<close>: a failed creation is logged and skipped.\<close>

fun initialize_loop :: "real \<Rightarrow> create_outcome list \<Rightarrow> pool \<Rightarrow> pool" where
  "initialize_loop now [] p = p"
| "initialize_loop now (Created # os) p =
     initialize_loop now os
       (p\<lparr>store := (store p)(next_addr p := new_connection now),
          connections := connections p @ [next_addr p],
          next_addr := Suc (next_addr p)\<rparr>)"
| "initialize_loop now (_ # os) p = initialize_loop now os p"

text \<open>
  \<open>initialize\<close> runs \<open>range(min_connections)\<close> rounds; \<open>outcomes\<close> lists what each
  creation attempt does (an attempt with no entry succeeds).
\<close>

definition initialize :: "real \<Rightarrow> create_outcome list \<Rightarrow> pool \<Rightarrow> pool" where
  "initialize now outcomes p =
     (if initialized p then p
      else (let n = nat (min_connections p);
                os = take n (outcomes @ replicate n Created)
            in (initialize_loop now os p)\<lparr>initialized := True\<rparr>))"

definition remove_user_connection :: "string \<Rightarrow> real \<Rightarrow> pool \<Rightarrow> pool" where
  "remove_user_connection uid now p =
     (case user_connections p uid of
        Some a \<Rightarrow>
          p\<lparr>store := (store p)(a := (store p a)\<lparr>in_use := False, user_id := None,
                                                last_used := now\<rparr>),
            user_connections := (user_connections p)(uid := None)\<rparr>
      | None \<Rightarrow> p)"

definition release_connection :: "string \<Rightarrow> real \<Rightarrow> pool \<Rightarrow> pool" where
  "release_connection uid now p = remove_user_connection uid now p"

text \<open>
  The second and third part of \<open>get_connection\<close>: the scan for a free live connection,
  then the creation of a new one below \<open>max_connections\<close>.
\<close>

definition is_free_live :: "pool \<Rightarrow> addr \<Rightarrow> bool" where
  "is_free_live p a \<longleftrightarrow> \<not> in_use (store p a) \<and> client_connected (store p a)"

definition bind_connection :: "string \<Rightarrow> real \<Rightarrow> addr \<Rightarrow> pool \<Rightarrow> pool" where
  "bind_connection uid now a p =
     p\<lparr>store := (store p)(a := (store p a)\<lparr>in_use := True, user_id := Some uid,
                                           last_used := now\<rparr>),
       user_connections := (user_connections p)(uid \<mapsto> a)\<rparr>"

definition scan_or_create ::
    "string \<Rightarrow> real \<Rightarrow> create_outcome \<Rightarrow> pool \<Rightarrow> addr option \<times> pool" where
  "scan_or_create uid now outcome p =
     (case find (is_free_live p) (connections p) of
        Some a \<Rightarrow> (Some a, bind_connection uid now a p)
      | None \<Rightarrow>
          if int (length (connections p)) < max_connections p then
            (case outcome of
               Created \<Rightarrow>
                 (let a = next_addr p;
                      p' = p\<lparr>store := (store p)(a := new_connection now),
                             connections := connections p @ [a],
                             next_addr := Suc a\<rparr>
                  in (Some a, bind_connection uid now a p'))
             | _ \<Rightarrow> (None, p))
          else (None, p))"

definition get_connection ::
    "string \<Rightarrow> real \<Rightarrow> create_outcome \<Rightarrow> pool \<Rightarrow> addr option \<times> pool" where
  "get_connection uid now outcome p =
     (case user_connections p uid of
        Some a \<Rightarrow>
          if client_connected (store p a)
          then (Some a, p\<lparr>store := (store p)(a := (store p a)\<lparr>last_used := now\<rparr>)\<rparr>)
          else scan_or_create uid now outcome (remove_user_connection uid now p)
      | None \<Rightarrow> scan_or_create uid now outcome p)"

text \<open>
  One tick of \<open>_cleanup_idle_connections\<close> (the body under the lock). The first loop
  collects the indices to remove; \<open>len(self.connections)\<close> is read while nothing has been
  removed yet. The second loop walks the collected indices from the back, disconnects
  the client and pops the entry; an exception from \<open>disconnect\<close> is caught and logged and
  the entry is popped all the same.
\<close>

definition idle_candidates :: "real \<Rightarrow> pool \<Rightarrow> nat list" where
  "idle_candidates current_time p =
     filter (\<lambda>i. let conn = store p (connections p ! i)
                  in \<not> in_use conn
                     \<and> int (length (connections p)) > min_connections p
                     \<and> current_time - last_used conn > of_int (max_idle_time p))
            [0 ..< length (connections p)]"

definition pop_connection :: "nat \<Rightarrow> pool \<Rightarrow> pool" where
  "pop_connection i p =
     (let a = connections p ! i
      in p\<lparr>store := (store p)(a := (store p a)\<lparr>client_connected := False\<rparr>),
           connections := take i (connections p) @ drop (Suc i) (connections p)\<rparr>)"

definition cleanup_idle_connections :: "real \<Rightarrow> pool \<Rightarrow> pool" where
  "cleanup_idle_connections current_time p =
     fold pop_connection (rev (idle_candidates current_time p)) p"

text \<open>
  A pool with \<open>min_connections = 2\<close> as three sessions leave it: initialised with two
  connections, a third one created for the third owner, then all three released at
  time 0.
\<close>

definition busy_pool3 :: pool where
  "busy_pool3 =
     snd (get_connection ''u3'' 0 Created
       (snd (get_connection ''u2'' 0 Created
         (snd (get_connection ''u1'' 0 Created
           (initialize 0 [] (new_pool 2 10 300)))))))"

definition idle_pool3 :: pool where
  "idle_pool3 =
     release_connection ''u3'' 0
       (release_connection ''u2'' 0 (release_connection ''u1'' 0 busy_pool3))"

text \<open>
  What may happen to the pool between two calls of one owner: calls of
  \<open>get_connection\<close> and \<open>release_connection\<close>, sweep ticks, and the transport of a
  client closing (after which \<open>is_connected()\<close> is false).
\<close>

datatype pool_op =
    Acquire string real create_outcome
  | Release string real
  | Sweep real
  | TransportClosed addr

fun apply_op :: "pool_op \<Rightarrow> pool \<Rightarrow> pool" where
  "apply_op (Acquire u now outcome) p = snd (get_connection u now outcome p)"
| "apply_op (Release u now) p = release_connection u now p"
| "apply_op (Sweep now) p = cleanup_idle_connections now p"
| "apply_op (TransportClosed a) p =
     p\<lparr>store := (store p)(a := (store p a)\<lparr>client_connected := False\<rparr>)\<rparr>"

fun op_owner :: "pool_op \<Rightarrow> string option" where
  "op_owner (Acquire u _ _) = Some u"
| "op_owner (Release u _) = Some u"
| "op_owner _ = None"

definition run_ops :: "pool_op list \<Rightarrow> pool \<Rightarrow> pool" where
  "run_ops ops p = fold apply_op ops p"

text \<open>
  \<open>get_connection\<close> reaches \<open>_create_connection\<close> when the owner has no live binding,
  the scan finds no free live connection and the list is shorter than
  \<open>max_connections\<close>.
\<close>

definition attempts_creation :: "string \<Rightarrow> pool \<Rightarrow> bool" where
  "attempts_creation uid p \<longleftrightarrow>
     (case user_connections p uid of
        Some a \<Rightarrow> \<not> client_connected (store p a) | None \<Rightarrow> True)
     \<and> find (is_free_live p) (connections p) = None
     \<and> int (length (connections p)) < max_connections p"

text \<open>
  A run of \<open>get_connection\<close> calls, one per owner and time, with every creation
  succeeding; the results are collected in order.
\<close>

fun acquire_all :: "(string \<times> real) list \<Rightarrow> pool \<Rightarrow> addr option list \<times> pool" where
  "acquire_all [] p = ([], p)"
| "acquire_all ((u, now) # rest) p =
     (let (r, p') = get_connection u now Created p;
          (rs, p'') = acquire_all rest p'
      in (r # rs, p''))"

text \<open>
  A pool as \<open>initialize\<close> leaves it: distinct allocated entries, all free and live,
  no owner bound, at most \<open>max_connections\<close> entries.
\<close>

definition pool_ready :: "pool \<Rightarrow> bool" where
  "pool_ready p \<longleftrightarrow>
     distinct (connections p)
     \<and> list_all (\<lambda>a. a < next_addr p \<and> \<not> in_use (store p a)
                      \<and> client_connected (store p a)) (connections p)
     \<and> user_connections p = Map.empty
     \<and> int (length (connections p)) \<le> max_connections p"

text \<open>The invariant that a run of acquires by fresh owners maintains.\<close>

definition pool_inv :: "pool \<Rightarrow> string set \<Rightarrow> bool" where
  "pool_inv p B \<longleftrightarrow>
     distinct (connections p)
     \<and> (\<forall>a \<in> set (connections p). a < next_addr p \<and> client_connected (store p a))
     \<and> dom (user_connections p) = B \<and> finite B
     \<and> length (filter (\<lambda>a. in_use (store p a)) (connections p)) = card B
     \<and> int (length (connections p)) \<le> max_connections p"


section \<open>Text: Python strings as lists of code points\<close>

text \<open>
  A Python \<open>str\<close> is a sequence of Unicode code points; the model is a list of natural
  numbers. \<open>ustr\<close> turns a literal into its code points. \<open>isspace\<close> is
  \<open>str.isspace\<close> on one character, which is also the class \<open>\s\<close> of \<open>re\<close> on \<open>str\<close>
  patterns and the set that \<open>str.strip()\<close> removes.
\<close>

type_synonym ustring = "nat list"

definition ustr :: "string \<Rightarrow> ustring" where
  "ustr s = map of_char s"

definition isspace :: "nat \<Rightarrow> bool" where
  "isspace c \<longleftrightarrow>
     (9 \<le> c \<and> c \<le> 13) \<or> (28 \<le> c \<and> c \<le> 32) \<or> c = 133 \<or> c = 160 \<or> c = 5760
     \<or> (8192 \<le> c \<and> c \<le> 8202) \<or> c = 8232 \<or> c = 8233 \<or> c = 8239 \<or> c = 8287
     \<or> c = 12288"

definition lstrip :: "ustring \<Rightarrow> ustring" where
  "lstrip s = dropWhile isspace s"

definition rstrip :: "ustring \<Rightarrow> ustring" where
  "rstrip s = rev (dropWhile isspace (rev s))"

definition strip :: "ustring \<Rightarrow> ustring" where
  "strip s = rstrip (lstrip s)"

definition LT :: nat where "LT = of_char (CHR ''<'')"

definition NL :: nat where "NL = of_char (CHR 0x0A)"

definition think_open :: ustring where "think_open = ustr ''<think>''"

definition think_close :: ustring where "think_close = ustr ''</think>''"

section \<open>The whole-string filter (app/llm\_client.py)\<close>

text \<open>
  \<open>re.sub(r'<think>.*?</think>', '', text, flags=re.DOTALL)\<close>: scanning from the left,
  a match starts where the text reads \<open><think>\<close> and a \<open></think>\<close> follows anywhere
  behind it; the lazy \<open>.*?\<close> ends the match at the first such \<open></think>\<close>. The scan
  goes on behind the match. \<open>find_close s\<close> is the text behind the first
  \<open></think>\<close> of \<open>s\<close>.
\<close>

fun find_close :: "ustring \<Rightarrow> ustring option" where
  "find_close [] = None"
| "find_close (c # cs) =
     (if prefix think_close (c # cs) then Some (drop (length think_close) (c # cs))
      else find_close cs)"

lemma find_close_shorter: "find_close s = Some r \<Longrightarrow> length r < length s"
  by (induction s) (auto simp: think_close_def ustr_def split: if_splits)

function sub_think :: "ustring \<Rightarrow> ustring" where
  "sub_think [] = []"
| "sub_think (c # cs) =
     (if prefix think_open (c # cs) then
        (case find_close (drop (length think_open) (c # cs)) of
           Some rest \<Rightarrow> sub_think rest
         | None \<Rightarrow> c # sub_think cs)
      else c # sub_think cs)"
  by pat_completeness auto
termination
proof (relation "measure length")
  fix c cs rest
  assume "find_close (drop (length think_open) (c # cs)) = Some rest"
  then have "length rest < length (drop (length think_open) (c # cs))"
    by (rule find_close_shorter)
  then show "(rest, c # cs) \<in> measure length" by simp
qed simp_all

text \<open>
  \<open>re.sub(r'\n\s*\n', '\n', text)\<close>: a match starts at a newline; the greedy \<open>\s*\<close>
  takes the whole run of whitespace behind it and gives characters back until the last
  one it gave back is a newline, so the match ends at the last newline of that run. If
  the run has no newline there is no match at this position.
\<close>

definition after_last_newline :: "ustring \<Rightarrow> ustring" where
  "after_last_newline ws = rev (takeWhile (\<lambda>x. x \<noteq> NL) (rev ws))"

function sub_blank_lines :: "ustring \<Rightarrow> ustring" where
  "sub_blank_lines [] = []"
| "sub_blank_lines (c # cs) =
     (if c = NL \<and> NL \<in> set (takeWhile isspace cs)
      then NL # sub_blank_lines
                  (after_last_newline (takeWhile isspace cs) @ dropWhile isspace cs)
      else c # sub_blank_lines cs)"
  by pat_completeness auto
termination
proof (relation "measure length")
  fix c :: nat and cs :: ustring
  have "length (after_last_newline (takeWhile isspace cs)) \<le> length (takeWhile isspace cs)"
    unfolding after_last_newline_def
    by (metis length_rev length_takeWhile_le)
  moreover have "length (takeWhile isspace cs) + length (dropWhile isspace cs) = length cs"
    by (metis length_append takeWhile_dropWhile_id)
  ultimately show "(after_last_newline (takeWhile isspace cs) @ dropWhile isspace cs, c # cs)
        \<in> measure length"
    by simp
qed simp_all

definition filter_think_tags :: "ustring \<Rightarrow> ustring" where
  "filter_think_tags text = strip (sub_blank_lines (sub_think text))"

section \<open>The streaming filter (call\_llm\_and\_respond in app/consumers.py)\<close>

text \<open>
  The loop variables of \<open>call_llm_and_respond\<close>, and \<open>sent\<close>, the \<open>content\<close> of every
  \<open>ai_chunk\<close> message sent so far, in order. The session is taken to stay running
  (\<open>is_running\<close>) and \<open>send\<close> not to raise.
\<close>

record filter_state =
  in_think_block :: bool
  is_start_output :: bool
  pending_content :: ustring
  sent :: "ustring list"

definition filter_init :: filter_state where
  "filter_init =
     \<lparr>in_think_block = False, is_start_output = True, pending_content = [], sent = []\<rparr>"

text \<open>The body of \<open>for char in chunk\<close>.\<close>

definition stream_char :: "nat \<Rightarrow> filter_state \<Rightarrow> filter_state" where
  "stream_char char st =
     (let pending = pending_content st in
      if in_think_block st then
        (if char = LT \<and> pending = [] then st\<lparr>pending_content := [LT]\<rparr>
         else if pending \<noteq> [] \<and> length pending < 8 then
           (let pending' = pending @ [char] in
            if pending' = think_close
            then st\<lparr>in_think_block := False, pending_content := []\<rparr>
            else if \<not> prefix pending' think_close then st\<lparr>pending_content := []\<rparr>
            else st\<lparr>pending_content := pending'\<rparr>)
         else st\<lparr>pending_content := []\<rparr>)
      else if is_start_output st then
        (if isspace char then st
         else if char = LT then st\<lparr>pending_content := [LT]\<rparr>
         else if pending \<noteq> [] \<and> length pending < 7 then
           (let pending' = pending @ [char] in
            if pending' = think_open
            then st\<lparr>in_think_block := True, pending_content := []\<rparr>
            else if \<not> prefix pending' think_open
            then st\<lparr>is_start_output := False, pending_content := [],
                    sent := sent st @ [pending']\<rparr>
            else st\<lparr>pending_content := pending'\<rparr>)
         else st\<lparr>is_start_output := False, pending_content := [],
                 sent := sent st @ [if pending \<noteq> [] then pending @ [char] else [char]]\<rparr>)
      else
        (if char = LT \<and> pending = [] then st\<lparr>pending_content := [LT]\<rparr>
         else if pending \<noteq> [] \<and> length pending < 7 then
           (let pending' = pending @ [char] in
            if pending' = think_open
            then st\<lparr>in_think_block := True, pending_content := []\<rparr>
            else if \<not> prefix pending' think_open
            then st\<lparr>pending_content := [], sent := sent st @ [pending']\<rparr>
            else st\<lparr>pending_content := pending'\<rparr>)
         else st\<lparr>sent := sent st @ [[char]]\<rparr>))"

text \<open>One round of \<open>async for chunk\<close>: an empty chunk is skipped.\<close>

definition stream_chunk :: "ustring \<Rightarrow> filter_state \<Rightarrow> filter_state" where
  "stream_chunk chunk st = (if chunk \<noteq> [] then fold stream_char chunk st else st)"

text \<open>Behind the loop: what is still pending is sent, outside a think block and outside
  the leading state.\<close>

definition stream_finish :: "filter_state \<Rightarrow> filter_state" where
  "stream_finish st =
     (if pending_content st \<noteq> [] \<and> \<not> in_think_block st \<and> \<not> is_start_output st
      then st\<lparr>sent := sent st @ [pending_content st]\<rparr> else st)"

definition stream_filter :: "ustring list \<Rightarrow> ustring list" where
  "stream_filter chunks = sent (stream_finish (fold stream_chunk chunks filter_init))"

text \<open>What the client shows: the contents of the \<open>ai_chunk\<close> messages, joined.\<close>

definition stream_visible :: "ustring list \<Rightarrow> ustring" where
  "stream_visible chunks = concat (stream_filter chunks)"

definition one_by_one :: "ustring \<Rightarrow> ustring list" where
  "one_by_one s = map (\<lambda>c. [c]) s"

text \<open>
  An input made of text and well-formed hidden spans: \<open>t0\<close>, then for every pair
  \<open>(h, t)\<close> the start marker, the hidden text \<open>h\<close>, the end marker and the text \<open>t\<close>.
  \<open>visible_text\<close> is the same input with the spans taken out. In a plain input the
  character \<open><\<close> occurs only as the first character of the markers.
\<close>

definition span_text :: "ustring \<times> ustring \<Rightarrow> ustring" where
  "span_text ht = think_open @ fst ht @ think_close @ snd ht"

definition spans_text :: "ustring \<Rightarrow> (ustring \<times> ustring) list \<Rightarrow> ustring" where
  "spans_text t0 spans = t0 @ concat (map span_text spans)"

definition visible_text :: "ustring \<Rightarrow> (ustring \<times> ustring) list \<Rightarrow> ustring" where
  "visible_text t0 spans = t0 @ concat (map snd spans)"

definition plain :: "ustring \<Rightarrow> (ustring \<times> ustring) list \<Rightarrow> bool" where
  "plain t0 spans \<longleftrightarrow>
     LT \<notin> set t0 \<and> list_all (\<lambda>ht. LT \<notin> set (fst ht) \<and> LT \<notin> set (snd ht)) spans"

text \<open>
  The leading state with a buffered prefix, and the state in which the buffer and the
  character that broke the match have been sent together.
\<close>

definition leading_pending :: "ustring \<Rightarrow> filter_state" where
  "leading_pending b =
     \<lparr>in_think_block = False, is_start_output = True, pending_content = b, sent = []\<rparr>"

definition flushed_with :: "nat \<Rightarrow> filter_state \<Rightarrow> filter_state" where
  "flushed_with char st =
     st\<lparr>is_start_output := False, pending_content := [],
        sent := sent st @ [pending_content st @ [char]]\<rparr>"


section \<open>Cleaning recognition text (app/utils.py)\<close>

text \<open>
  One tag \<open><\|[^|]*\|>\<close> at the head of a text: \<open><|\<close>, then every character up to
  the next \<open>|\<close>, then \<open>|>\<close>. The class \<open>[^|]\<close> cannot step over a \<open>|\<close>, so giving
  characters back never finds another match. \<open>match_tag\<close> returns the text behind the
  tag.
\<close>

definition BAR :: nat where "BAR = of_char (CHR ''|'')"

definition match_tag :: "ustring \<Rightarrow> ustring option" where
  "match_tag s =
     (if prefix (ustr ''<|'') s then
        (let after = dropWhile (\<lambda>c. c \<noteq> BAR) (drop 2 s)
         in if prefix (ustr ''|>'') after then Some (drop 2 after) else None)
      else None)"

text \<open>The two patterns of \<open>clean_recognition_text\<close>: three tags and \<open>\s*\<close>, one tag
  and \<open>\s*\<close>.\<close>

definition match_tags3 :: "ustring \<Rightarrow> ustring option" where
  "match_tags3 s =
     (case match_tag s of
        None \<Rightarrow> None
      | Some r1 \<Rightarrow>
          (case match_tag r1 of
             None \<Rightarrow> None
           | Some r2 \<Rightarrow>
               (case match_tag r2 of
                  None \<Rightarrow> None
                | Some r3 \<Rightarrow> Some (dropWhile isspace r3))))"

definition match_tag1 :: "ustring \<Rightarrow> ustring option" where
  "match_tag1 s =
     (case match_tag s of None \<Rightarrow> None | Some r \<Rightarrow> Some (dropWhile isspace r))"

lemma match_tag_shorter: "match_tag s = Some r \<Longrightarrow> length r < length s"
proof -
  assume m: "match_tag s = Some r"
  let ?after = "dropWhile (\<lambda>c. c \<noteq> BAR) (drop 2 s)"
  from m have p: "prefix (ustr ''<|'') s" and r: "r = drop 2 ?after"
    by (auto simp: match_tag_def Let_def split: if_splits)
  from p have "2 \<le> length s"
    using prefix_length_le[of "ustr ''<|''" s] by (simp add: ustr_def)
  moreover have "length ?after \<le> length (drop 2 s)"
    by (rule length_dropWhile_le)
  ultimately show ?thesis using r by simp
qed

lemma match_tags3_shorter: "match_tags3 s = Some r \<Longrightarrow> length r < length s"
proof -
  assume "match_tags3 s = Some r"
  then obtain r1 r2 r3 where "match_tag s = Some r1" "match_tag r1 = Some r2"
    "match_tag r2 = Some r3" "r = dropWhile isspace r3"
    by (auto simp: match_tags3_def split: option.splits)
  then show ?thesis
    using match_tag_shorter[of s r1] match_tag_shorter[of r1 r2] match_tag_shorter[of r2 r3]
      length_dropWhile_le[of isspace r3]
    by simp
qed

lemma match_tag1_shorter: "match_tag1 s = Some r \<Longrightarrow> length r < length s"
proof -
  assume "match_tag1 s = Some r"
  then obtain r1 where "match_tag s = Some r1" "r = dropWhile isspace r1"
    by (auto simp: match_tag1_def split: option.splits)
  then show ?thesis
    using match_tag_shorter[of s r1] length_dropWhile_le[of isspace r1] by simp
qed

text \<open>\<open>re.sub(pattern, '', text)\<close> for the two patterns: leftmost matches, the scan
  goes on behind each match.\<close>

function sub_tags3 :: "ustring \<Rightarrow> ustring" where
  "sub_tags3 [] = []"
| "sub_tags3 (c # cs) =
     (case match_tags3 (c # cs) of
        Some rest \<Rightarrow> sub_tags3 rest
      | None \<Rightarrow> c # sub_tags3 cs)"
  by pat_completeness auto
termination
proof (relation "measure length")
  fix c cs rest
  assume "match_tags3 (c # cs) = Some rest"
  then have "length rest < length (c # cs)" by (rule match_tags3_shorter)
  then show "(rest, c # cs) \<in> measure length" by simp
qed simp_all

function sub_tag1 :: "ustring \<Rightarrow> ustring" where
  "sub_tag1 [] = []"
| "sub_tag1 (c # cs) =
     (case match_tag1 (c # cs) of
        Some rest \<Rightarrow> sub_tag1 rest
      | None \<Rightarrow> c # sub_tag1 cs)"
  by pat_completeness auto
termination
proof (relation "measure length")
  fix c cs rest
  assume "match_tag1 (c # cs) = Some rest"
  then have "length rest < length (c # cs)" by (rule match_tag1_shorter)
  then show "(rest, c # cs) \<in> measure length" by simp
qed simp_all

definition clean_recognition_text :: "ustring \<Rightarrow> ustring" where
  "clean_recognition_text text =
     (if text = [] then text else strip (sub_tag1 (sub_tags3 text)))"

section \<open>The recognition listener (handle\_funasr\_responses in app/consumers.py)\<close>

text \<open>
  The fields of the consumer that the listener reads and writes, a parsed message of
  the recognition backend (\<open>msg_text\<close> is \<open>None\<close> when the key \<open>text\<close> is absent,
  likewise \<open>msg_mode\<close>; \<open>msg_is_final\<close> is the truth value of
  \<open>data.get("is_final", False)\<close>; a \<open>text\<close> that is present is taken to be a string),
  and what handling a message does towards the client and the LLM.
\<close>

record session =
  accumulated_text :: ustring
  last_complete_text :: ustring
  is_ai_speaking :: bool
  is_running :: bool

record asr_message =
  msg_text :: "ustring option"
  msg_mode :: "ustring option"
  msg_is_final :: bool

datatype listener_event =
    RecognitionPartial ustring
  | RecognitionFinal ustring
  | LlmCall ustring

definition new_session :: session where
  "new_session =
     \<lparr>accumulated_text = [], last_complete_text = [], is_ai_speaking = False,
      is_running = True\<rparr>"

text \<open>
  \<open>call_llm_and_respond\<close> sets \<open>is_ai_speaking\<close> on entry and clears it in its
  \<open>finally\<close>; it touches no other field of the session. The listener awaits it, so
  the next message is read when the call is over.
\<close>

definition llm_begin :: "session \<Rightarrow> session" where
  "llm_begin s = s\<lparr>is_ai_speaking := True\<rparr>"

definition llm_end :: "session \<Rightarrow> session" where
  "llm_end s = s\<lparr>is_ai_speaking := False\<rparr>"

definition call_llm_and_respond :: "ustring \<Rightarrow> session \<Rightarrow> session" where
  "call_llm_and_respond user_input s = llm_end (llm_begin s)"

definition get_mode :: "asr_message \<Rightarrow> ustring" where
  "get_mode data = (case msg_mode data of Some m \<Rightarrow> m | None \<Rightarrow> [])"

text \<open>The body of the loop for one message \<open>data\<close> that is not \<open>None\<close>.\<close>

definition handle_response :: "asr_message \<Rightarrow> session \<Rightarrow> listener_event list \<times> session" where
  "handle_response data s =
     (case msg_text data of
        None \<Rightarrow> ([], s)
      | Some raw_text \<Rightarrow>
          if \<not> is_ai_speaking s \<and> is_running s then
            (let mode = get_mode data in
             if mode = ustr ''2pass-online'' then
               ([RecognitionPartial (clean_recognition_text raw_text)],
                s\<lparr>accumulated_text := raw_text\<rparr>)
             else if mode = ustr ''2pass-offline'' \<or> mode = ustr ''offline'' then
               (let s1 = s\<lparr>accumulated_text := raw_text\<rparr>;
                    display_text = clean_recognition_text raw_text
                in if display_text \<noteq> [] \<and> strip display_text \<noteq> []
                      \<and> display_text \<noteq> last_complete_text s1
                   then ([RecognitionFinal display_text, LlmCall display_text],
                         call_llm_and_respond display_text
                           (s1\<lparr>last_complete_text := display_text\<rparr>))
                   else ([], s1))
             else ([], s))
          else ([], s))"

text \<open>The loop over the messages that arrive, while the session is running.\<close>

fun listen :: "asr_message list \<Rightarrow> session \<Rightarrow> listener_event list \<times> session" where
  "listen [] s = ([], s)"
| "listen (data # rest) s =
     (if is_running s then
        (let (evs, s1) = handle_response data s;
             (evs', s2) = listen rest s1
         in (evs @ evs', s2))
      else ([], s))"

fun llm_calls :: "listener_event list \<Rightarrow> ustring list" where
  "llm_calls [] = []"
| "llm_calls (LlmCall u # evs) = u # llm_calls evs"
| "llm_calls (_ # evs) = llm_calls evs"

definition final_message :: "ustring \<Rightarrow> ustring \<Rightarrow> asr_message" where
  "final_message mode raw_text =
     \<lparr>msg_text = Some raw_text, msg_mode = Some mode, msg_is_final = False\<rparr>"

definition is_final_mode :: "ustring \<Rightarrow> bool" where
  "is_final_mode mode \<longleftrightarrow> mode = ustr ''2pass-offline'' \<or> mode = ustr ''offline''"


section \<open>The listener and the LLM call in time\<close>













section \<open>Batch recognition (FunASRClient.recognize\_audio in app/funasr\_client.py)\<close>

text \<open>
  A control frame is the JSON object that \<open>send_config\<close> serialises; a key that the
  dictionary does not have is \<open>None\<close>. An audio frame is one binary message.
\<close>

type_synonym byte = "8 word"

record asr_config =
  cfg_mode :: "ustring option"
  cfg_chunk_size :: "int list option"
  cfg_chunk_interval :: "int option"
  cfg_audio_fs :: "int option"
  cfg_wav_name :: "ustring option"
  cfg_wav_format :: "ustring option"
  cfg_is_speaking :: "bool option"
  cfg_hotwords :: "ustring option"
  cfg_itn :: "bool option"

datatype ws_frame = ConfigFrame asr_config | AudioFrame "byte list"

definition offline_config :: "int \<Rightarrow> asr_config" where
  "offline_config sample_rate =
     \<lparr>cfg_mode = Some (ustr ''offline''), cfg_chunk_size = Some [5, 10, 5],
      cfg_chunk_interval = Some 10, cfg_audio_fs = Some sample_rate,
      cfg_wav_name = Some (ustr ''uploaded_audio''), cfg_wav_format = Some (ustr ''pcm''),
      cfg_is_speaking = Some True, cfg_hotwords = Some [], cfg_itn = Some True\<rparr>"

definition end_config :: asr_config where
  "end_config =
     \<lparr>cfg_mode = None, cfg_chunk_size = None, cfg_chunk_interval = None,
      cfg_audio_fs = None, cfg_wav_name = None, cfg_wav_format = None,
      cfg_is_speaking = Some False, cfg_hotwords = None, cfg_itn = None\<rparr>"

definition chunk_size :: nat where "chunk_size = 960"

text \<open>The loop \<open>while pos < len(pcm_data)\<close>: the chunks that are sent, in order.\<close>

function audio_chunks :: "byte list \<Rightarrow> nat \<Rightarrow> byte list list" where
  "audio_chunks pcm_data pos =
     (if pos < length pcm_data then
        (let chunk = take chunk_size (drop pos pcm_data)
         in if length chunk = 0 then []
            else chunk # audio_chunks pcm_data (pos + chunk_size))
      else [])"
  by pat_completeness auto
termination
  by (relation "measure (\<lambda>(pcm_data, pos). length pcm_data - pos)")
     (auto simp: chunk_size_def)

declare audio_chunks.simps [simp del]

text \<open>
  What one call of \<open>receive_message(timeout=5.0)\<close> comes back with, when the socket
  is there: a parsed text message; nothing (\<open>None\<close> after the 5 second timeout, for
  a binary frame or for text that is not JSON); or the end of the connection
  (\<open>ConnectionClosed\<close> or any other exception, after which \<open>self.websocket\<close> is
  \<open>None\<close>, or a socket that is found closed). Each outcome carries the time at which
  the call comes back.
\<close>

datatype recv_outcome = Message asr_message | NoData | Closed

definition SPACE :: nat where "SPACE = of_char (CHR '' '')"

text \<open>
  What the task does with a message: non-blank text in mode \<open>offline\<close> or
  \<open>2pass-offline\<close> is stripped and appended to \<open>accumulated_text\<close> with a space. No
  progress callback is installed.
\<close>

definition accumulate :: "asr_message \<Rightarrow> ustring \<Rightarrow> ustring" where
  "accumulate data accumulated =
     (case msg_text data of
        Some text \<Rightarrow>
          if strip text \<noteq> [] \<and> (get_mode data = ustr ''offline''
                                     \<or> get_mode data = ustr ''2pass-offline'')
          then accumulated @ strip text @ [SPACE]
          else accumulated
      | None \<Rightarrow> accumulated)"

text \<open>
  The task \<open>handle_recognition_results\<close>, seen from the caller: the value is the
  \<open>accumulated_text\<close> that the caller finds when it goes on at time \<open>stop\<close> or when
  the task has ended before, and \<open>None\<close> when the caller never goes on. The loop is
  \<open>while True\<close>. With the socket there, \<open>receive_message\<close> suspends until its outcome;
  an outcome that would come at \<open>stop\<close> or later is not seen, because the caller
  cancels the task then. A message with a true \<open>is_final\<close> ends the task. Once
  \<open>self.websocket\<close> is \<open>None\<close>, \<open>receive_message\<close> returns \<open>None\<close> at once without
  suspending and the loop takes its \<open>continue\<close>: the next round is the same round,
  no other coroutine runs again, and the caller's timeout cannot fire.
\<close>

partial_function (option) handle_recognition_results ::
    "real \<Rightarrow> bool \<Rightarrow> (real \<times> recv_outcome) list \<Rightarrow> ustring \<Rightarrow> ustring option" where
  "handle_recognition_results stop websocket_open outcomes accumulated =
     (if \<not> websocket_open
      then handle_recognition_results stop websocket_open outcomes accumulated
      else (case outcomes of
              [] \<Rightarrow> Some accumulated
            | (t, out) # rest \<Rightarrow>
                if stop \<le> t then Some accumulated
                else (case out of
                        Closed \<Rightarrow> handle_recognition_results stop False rest accumulated
                      | NoData \<Rightarrow> handle_recognition_results stop True rest accumulated
                      | Message data \<Rightarrow>
                          if msg_is_final data then Some (accumulate data accumulated)
                          else handle_recognition_results stop True rest
                                 (accumulate data accumulated))))"

text \<open>
  What the network does to one call: whether \<open>connect\<close> succeeds; which send (counted
  from 0) is the first to raise, if any, and when; the time at which the end-of-speech
  frame has been sent, where the caller starts its wait of 60 seconds; and the outcomes
  of the task's calls of \<open>receive_message\<close>, in order. An outcome list that ends
  stands for timeouts up to the end of the wait.
\<close>

record batch_env =
  connect_ok :: bool
  send_failure :: "(nat \<times> real) option"
  sent_at :: real
  received :: "(real \<times> recv_outcome) list"

text \<open>
  \<open>recognize_audio\<close>: the frames sent and the text returned, or \<open>None\<close> when the call
  never returns. An exception from \<open>connect\<close> or from a send makes it return the empty
  string; otherwise it waits for the task until 60 seconds after the end-of-speech
  frame, cancels it and returns the cleaned text.
\<close>

definition recognize_audio ::
    "byte list \<Rightarrow> int \<Rightarrow> batch_env \<Rightarrow> (ws_frame list \<times> ustring) option" where
  "recognize_audio pcm_data sample_rate env =
     (if \<not> connect_ok env then Some ([], [])
      else
        (let to_send = [ConfigFrame (offline_config sample_rate)]
                       @ map AudioFrame (audio_chunks pcm_data 0)
                       @ [ConfigFrame end_config];
             failure = (case send_failure env of
                          Some (k, t) \<Rightarrow> if k < length to_send then Some (k, t) else None
                        | None \<Rightarrow> None)
         in case failure of
              Some (k, t) \<Rightarrow>
                (case handle_recognition_results t True (received env) [] of
                   None \<Rightarrow> None
                 | Some acc \<Rightarrow> Some (take k to_send, []))
            | None \<Rightarrow>
                (case handle_recognition_results (sent_at env + 60) True (received env) [] of
                   None \<Rightarrow> None
                 | Some acc \<Rightarrow>
                     Some (to_send, clean_recognition_text (strip acc)))))"

text \<open>
  The socket stays open for the task: no outcome before \<open>stop\<close> and before the first
  message with \<open>is_final\<close> is the end of the connection.
\<close>

fun open_until :: "real \<Rightarrow> (real \<times> recv_outcome) list \<Rightarrow> bool" where
  "open_until stop [] = True"
| "open_until stop ((t, Closed) # rest) = (stop \<le> t)"
| "open_until stop ((t, NoData) # rest) = (stop \<le> t \<or> open_until stop rest)"
| "open_until stop ((t, Message data) # rest) =
     (stop \<le> t \<or> msg_is_final data \<or> open_until stop rest)"

text \<open>
  The messages that the task gets to see: those that come before \<open>stop\<close>, up to the
  first one with \<open>is_final\<close>; and the finalized text fragments among them.
\<close>

fun heard :: "real \<Rightarrow> (real \<times> recv_outcome) list \<Rightarrow> asr_message list" where
  "heard stop [] = []"
| "heard stop ((t, Message data) # rest) =
     (if stop \<le> t then []
      else if msg_is_final data then [data] else data # heard stop rest)"
| "heard stop ((t, _) # rest) = (if stop \<le> t then [] else heard stop rest)"

fun fragment_of :: "asr_message \<Rightarrow> ustring list" where
  "fragment_of data =
     (case msg_text data of
        Some text \<Rightarrow>
          if strip text \<noteq> [] \<and> is_final_mode (get_mode data) then [strip text] else []
      | None \<Rightarrow> [])"

definition fragments :: "asr_message list \<Rightarrow> ustring list" where
  "fragments ms = concat (map fragment_of ms)"

definition join_fragments :: "ustring list \<Rightarrow> ustring" where
  "join_fragments fs = strip (concat (map (\<lambda>f. f @ [SPACE]) fs))"

definition batch_message :: "ustring \<Rightarrow> bool \<Rightarrow> asr_message" where
  "batch_message raw_text fin =
     \<lparr>msg_text = Some raw_text, msg_mode = Some (ustr ''offline''), msg_is_final = fin\<rparr>"

text \<open>
  A run in which the end-of-speech frame is sent at time 2 and the backend answers
  \<open>a\<close> at time 1, nothing for 5 seconds, then \<open>b\<close> with the final flag at time 7; and
  a run in which it answers \<open>a\<close> and then closes the connection.
\<close>

definition two_fragments_env :: batch_env where
  "two_fragments_env =
     \<lparr>connect_ok = True, send_failure = None, sent_at = 2,
      received = [(1, Message (batch_message (ustr ''a'') False)), (6, NoData),
                  (7, Message (batch_message (ustr '' b '') True)),
                  (8, Message (batch_message (ustr ''c'') False))]\<rparr>"

definition closed_env :: batch_env where
  "closed_env =
     \<lparr>connect_ok = True, send_failure = None, sent_at = 2,
      received = [(1, Message (batch_message (ustr ''a'') False)), (3, Closed)]\<rparr>"

section \<open>Resampling (resample\_audio in app/audio\_processor.py)\<close>

text \<open>
  PCM data is a byte string of little-endian signed 16-bit samples.
  \<open>struct.unpack('<nh', data)\<close> raises \<open>struct.error\<close> unless \<open>data\<close> has exactly
  \<open>2 * n\<close> bytes; \<open>struct.pack('<nh', ...)\<close> raises it for a value outside the 16-bit
  range.
\<close>

datatype py_error = StructError | ZeroDivisionError

definition le16 :: "byte \<Rightarrow> byte \<Rightarrow> int" where
  "le16 lo hi =
     (let v = uint lo + 256 * uint hi in if v < 32768 then v else v - 65536)"

fun unpack_h :: "byte list \<Rightarrow> int list" where
  "unpack_h (lo # hi # rest) = le16 lo hi # unpack_h rest"
| "unpack_h _ = []"

definition in_int16 :: "int \<Rightarrow> bool" where
  "in_int16 v \<longleftrightarrow> - 32768 \<le> v \<and> v \<le> 32767"

definition pack_h :: "int \<Rightarrow> byte list" where
  "pack_h v = [word_of_int (v mod 256), word_of_int (v div 256 mod 256)]"

definition pack_all :: "int list \<Rightarrow> py_error + byte list" where
  "pack_all vs =
     (if list_all in_int16 vs then Inr (concat (map pack_h vs)) else Inl StructError)"

text \<open>\<open>int(x)\<close> on a float: truncation towards zero.\<close>

definition trunc :: "rat \<Rightarrow> int" where
  "trunc x = (if 0 \<le> x then \<lfloor>x\<rfloor> else \<lceil>x\<rceil>)"

text \<open>
  The body of the loop for the output index \<open>i\<close>. The source computes in IEEE
  doubles; the model computes in exact rationals. For the rates 8000 and 16000 the two
  agree: the ratio is 2.0, every position is a multiple of 0.5 and every product and
  sum is a multiple of 0.5 of magnitude at most 32768, all exactly representable.
\<close>

definition resample_sample :: "int list \<Rightarrow> rat \<Rightarrow> nat \<Rightarrow> int" where
  "resample_sample samples ratio i =
     (let src_pos = of_nat i / ratio;
          src_index = trunc src_pos
      in if src_index \<ge> int (length samples) - 1 then last samples
         else (let t = src_pos - of_int src_index;
                   sample = of_int (samples ! nat src_index) * (1 - t)
                            + of_int (samples ! (nat src_index + 1)) * t
               in trunc sample))"

definition resample_audio :: "byte list \<Rightarrow> int \<Rightarrow> int \<Rightarrow> py_error + byte list" where
  "resample_audio pcm_data from_rate to_rate =
     (if from_rate = to_rate then Inr pcm_data
      else if length pcm_data \<noteq> 2 * (length pcm_data div 2) then Inl StructError
      else if from_rate = 0 then Inl ZeroDivisionError
      else
        (let samples = unpack_h pcm_data;
             ratio = of_int to_rate / of_int from_rate;
             new_length = trunc (of_nat (length samples) * ratio)
         in pack_all (map (resample_sample samples ratio) [0 ..< nat new_length])))"

definition sample_count :: "byte list \<Rightarrow> nat" where
  "sample_count pcm_data = length pcm_data div 2"
section \<open>Idle sweep\<close>

lemma busy_pool3_eq:
  "busy_pool3 =
     \<lparr>min_connections = 2, max_connections = 10, max_idle_time = 300,
      connections = [0, 1, 2],
      user_connections = [''u1'' \<mapsto> 0, ''u2'' \<mapsto> 1, ''u3'' \<mapsto> 2],
      initialized = True,
      store = (\<lambda>_. new_connection 0)
        (0 := (new_connection 0)\<lparr>in_use := True, user_id := Some ''u1''\<rparr>,
         1 := (new_connection 0)\<lparr>in_use := True, user_id := Some ''u2''\<rparr>,
         2 := (new_connection 0)\<lparr>in_use := True, user_id := Some ''u3''\<rparr>),
      next_addr = 3\<rparr>"
  by (simp add: busy_pool3_def initialize_def new_pool_def numeral_2_eq_2
      get_connection_def scan_or_create_def is_free_live_def bind_connection_def
      new_connection_def numeral_3_eq_3)

lemma idle_pool3_eq:
  "idle_pool3 =
     \<lparr>min_connections = 2, max_connections = 10, max_idle_time = 300,
      connections = [0, 1, 2], user_connections = Map.empty, initialized = True,
      store = (\<lambda>_. new_connection 0), next_addr = 3\<rparr>"
  by (simp add: idle_pool3_def busy_pool3_eq release_connection_def
      remove_user_connection_def new_connection_def fun_eq_iff)

lemma pop_connection_connections:
  "connections (pop_connection i p) = take i (connections p) @ drop (Suc i) (connections p)"
  by (simp add: pop_connection_def Let_def)

lemma fold_pop_all:
  "n \<le> length (connections p) \<Longrightarrow>
   connections (fold pop_connection (rev [0 ..< n]) p) = drop n (connections p)"
proof (induction n arbitrary: p)
  case 0
  then show ?case by simp
next
  case (Suc n)
  let ?q = "pop_connection n p"
  have cs: "connections ?q = take n (connections p) @ drop (Suc n) (connections p)"
    by (rule pop_connection_connections)
  with Suc.prems have "n \<le> length (connections ?q)" by simp
  from Suc.IH[OF this] have "connections (fold pop_connection (rev [0 ..< n]) ?q)
      = drop n (connections ?q)" .
  also have "\<dots> = drop (Suc n) (connections p)"
    using Suc.prems by (simp add: cs)
  finally show ?case by simp
qed

text \<open>
  Whenever the list is longer than \<open>min_connections\<close> and every entry is free and idle
  beyond the threshold, one tick removes every entry.
\<close>

lemma cleanup_removes_all_idle:
  assumes "list_all (\<lambda>a. \<not> in_use (store p a)
                        \<and> current_time - last_used (store p a) > of_int (max_idle_time p))
             (connections p)"
      and "int (length (connections p)) > min_connections p"
  shows "connections (cleanup_idle_connections current_time p) = []"
proof -
  have "idle_candidates current_time p = [0 ..< length (connections p)]"
    unfolding idle_candidates_def using assms
    by (intro filter_True) (auto simp: list_all_length Let_def)
  then show ?thesis
    by (simp add: cleanup_idle_connections_def fold_pop_all)
qed

text \<open>
  C2. With \<open>min_connections = 2\<close> and three free connections idle for 1000 seconds
  (threshold 300), one sweep tick selects all three, because the size test reads the
  list length before anything is removed, and closes them all: the pool is left with no
  connection, below the minimum of 2.
\<close>

theorem cleanup_idle_connections_below_min:
  "min_connections idle_pool3 = 2
   \<and> length (connections idle_pool3) = 3
   \<and> idle_candidates 1000 idle_pool3 = [0, 1, 2]
   \<and> connections (cleanup_idle_connections 1000 idle_pool3) = []
   \<and> int (length (connections (cleanup_idle_connections 1000 idle_pool3)))
       < min_connections idle_pool3"
  by (simp add: cleanup_idle_connections_def idle_candidates_def pop_connection_def
      idle_pool3_eq new_connection_def upt_rec)

section \<open>A failed creation leaves the pool as it was\<close>

lemma find_free_live_remove:
  assumes "user_connections p uid = Some a" "\<not> client_connected (store p a)"
  shows "find (is_free_live (remove_user_connection uid now p))
           (connections (remove_user_connection uid now p))
         = find (is_free_live p) (connections p)"
proof -
  have "is_free_live (remove_user_connection uid now p) = is_free_live p"
    using assms by (auto simp: fun_eq_iff is_free_live_def remove_user_connection_def)
  moreover have "connections (remove_user_connection uid now p) = connections p"
    using assms by (simp add: remove_user_connection_def)
  ultimately show ?thesis by simp
qed

lemma remove_user_connection_fields [simp]:
  "connections (remove_user_connection uid now p) = connections p"
  "max_connections (remove_user_connection uid now p) = max_connections p"
  "min_connections (remove_user_connection uid now p) = min_connections p"
  "next_addr (remove_user_connection uid now p) = next_addr p"
  by (simp_all add: remove_user_connection_def split: option.splits)

lemma remove_user_connection_bindings:
  "user_connections (remove_user_connection uid now p) = (user_connections p)(uid := None)"
  by (auto simp: remove_user_connection_def fun_eq_iff split: option.splits)

lemma get_connection_failed_creation:
  assumes "attempts_creation uid p" "outcome \<noteq> Created"
  shows "get_connection uid now outcome p = (None, remove_user_connection uid now p)"
proof (cases "user_connections p uid")
  case None
  then have "remove_user_connection uid now p = p"
    by (simp add: remove_user_connection_def)
  with None assms show ?thesis
    by (cases outcome) (simp_all add: get_connection_def scan_or_create_def attempts_creation_def)
next
  case (Some a)
  with assms have dead: "\<not> client_connected (store p a)"
    by (simp add: attempts_creation_def)
  have "scan_or_create uid now outcome (remove_user_connection uid now p)
        = (None, remove_user_connection uid now p)"
    using assms find_free_live_remove[OF Some dead, of now]
    by (cases outcome) (simp_all add: scan_or_create_def attempts_creation_def)
  with Some dead show ?thesis by (simp add: get_connection_def)
qed

lemma get_connection_no_append:
  assumes "outcome \<noteq> Created"
  shows "connections (snd (get_connection uid now outcome p)) = connections p"
  using assms
  by (cases outcome)
     (auto simp: get_connection_def scan_or_create_def bind_connection_def
        split: option.splits)

text \<open>
  C7. When \<open>get_connection\<close> reaches \<open>_create_connection\<close> and the creation raises
  (in \<open>connect\<close> or in \<open>send_config\<close>), the call returns \<open>None\<close> and leaves the
  pool as it was when the creation was attempted: nothing is appended to
  \<open>connections\<close>, the owner is not bound and no binding is added. The pool at that
  moment is the pool of the call, less a stale binding of the owner to a dead
  connection, which is dropped before the scan whatever the creation does; a pool in
  which the owner had no binding is returned exactly as it was. In every call, the list
  changes only when the creation has succeeded, that is after \<open>connect\<close> and
  \<open>send_config\<close> have both returned.
\<close>

theorem get_connection_creation_failure:
  assumes "attempts_creation uid p" and "outcome \<noteq> Created"
  shows "fst (get_connection uid now outcome p) = None
    \<and> snd (get_connection uid now outcome p) = remove_user_connection uid now p
    \<and> connections (snd (get_connection uid now outcome p)) = connections p
    \<and> user_connections (snd (get_connection uid now outcome p)) uid = None
    \<and> dom (user_connections (snd (get_connection uid now outcome p)))
           \<subseteq> dom (user_connections p)
    \<and> (user_connections p uid = None \<longrightarrow> snd (get_connection uid now outcome p) = p)
    \<and> connections (snd (get_connection uid' now' outcome p')) = connections p'"
proof -
  let ?q = "remove_user_connection uid now p"
  have eq: "get_connection uid now outcome p = (None, ?q)"
    by (rule get_connection_failed_creation[OF assms])
  have "user_connections ?q uid = None"
    by (simp add: remove_user_connection_bindings)
  moreover have "dom (user_connections ?q) \<subseteq> dom (user_connections p)"
    by (auto simp: remove_user_connection_bindings split: if_splits)
  moreover have "user_connections p uid = None \<longrightarrow> ?q = p"
    by (simp add: remove_user_connection_def)
  moreover have "connections (snd (get_connection uid' now' outcome p')) = connections p'"
    by (rule get_connection_no_append[OF assms(2)])
  ultimately show ?thesis by (simp add: eq)
qed

theorem get_connection_creation_failure_witness:
  "attempts_creation ''u1'' (new_pool 0 10 300) \<and> ConnectRaises \<noteq> Created
   \<and> get_connection ''u1'' 5 ConnectRaises (new_pool 0 10 300) = (None, new_pool 0 10 300)"
proof -
  have a: "attempts_creation ''u1'' (new_pool 0 10 300)"
    by (simp add: attempts_creation_def new_pool_def)
  have b: "ConnectRaises \<noteq> Created" by simp
  have n: "user_connections (new_pool 0 10 300) ''u1'' = None"
    by (simp add: new_pool_def)
  from get_connection_creation_failure[OF a b, of 5]
  have "fst (get_connection ''u1'' 5 ConnectRaises (new_pool 0 10 300)) = None"
    and "user_connections (new_pool 0 10 300) ''u1'' = None \<longrightarrow>
         snd (get_connection ''u1'' 5 ConnectRaises (new_pool 0 10 300)) = new_pool 0 10 300"
    by blast+
  with n have "get_connection ''u1'' 5 ConnectRaises (new_pool 0 10 300)
               = (None, new_pool 0 10 300)"
    by (simp add: prod_eq_iff)
  with a b show ?thesis by blast
qed


section \<open>An owner keeps its connection\<close>

lemma get_connection_binds:
  assumes "get_connection uid now outcome p = (Some c, p1)"
  shows "user_connections p1 uid = Some c"
  using assms
  by (auto simp: get_connection_def scan_or_create_def bind_connection_def Let_def
      split: option.splits if_splits create_outcome.splits)

lemma scan_or_create_other:
  "u \<noteq> uid \<Longrightarrow>
   user_connections (snd (scan_or_create u now outcome p)) uid = user_connections p uid"
  by (auto simp: scan_or_create_def bind_connection_def Let_def
      split: option.splits create_outcome.splits)

lemma get_connection_other:
  "u \<noteq> uid \<Longrightarrow>
   user_connections (snd (get_connection u now outcome p)) uid = user_connections p uid"
  by (auto simp: get_connection_def scan_or_create_other remove_user_connection_bindings
      split: option.splits)

lemma fold_pop_bindings:
  "user_connections (fold pop_connection is p) = user_connections p"
  by (induction "is" arbitrary: p) (simp_all add: pop_connection_def Let_def)

lemma apply_op_other:
  "op_owner op \<noteq> Some uid \<Longrightarrow>
   user_connections (apply_op op p) uid = user_connections p uid"
  by (cases op)
     (simp_all add: get_connection_other release_connection_def
        remove_user_connection_bindings cleanup_idle_connections_def fold_pop_bindings)

lemma run_ops_other:
  "\<forall>op \<in> set ops. op_owner op \<noteq> Some uid \<Longrightarrow>
   user_connections (run_ops ops p) uid = user_connections p uid"
  unfolding run_ops_def
  by (induction ops arbitrary: p) (simp_all add: apply_op_other)

text \<open>
  C9. If \<open>get_connection\<close> returns a connection to an owner, and then anything
  happens that is not a call by that owner (acquires and releases of other owners, sweep
  ticks, transports closing), and the connection is still live, then the next
  \<open>get_connection\<close> of that owner returns the same connection.
\<close>

theorem get_connection_twice_same:
  assumes "get_connection uid t1 o1 p = (Some c, p1)"
      and "\<forall>op \<in> set ops. op_owner op \<noteq> Some uid"
      and "client_connected (store (run_ops ops p1) c)"
  shows "fst (get_connection uid t2 o2 (run_ops ops p1)) = Some c"
proof -
  have "user_connections (run_ops ops p1) uid = Some c"
    using run_ops_other[OF assms(2)] get_connection_binds[OF assms(1)] by simp
  with assms(3) show ?thesis by (simp add: get_connection_def)
qed

theorem get_connection_twice_same_witness:
  "get_connection ''u1'' 1 Created (initialize 0 [] (new_pool 1 3 300))
     = (Some 0, snd (get_connection ''u1'' 1 Created (initialize 0 [] (new_pool 1 3 300))))
   \<and> list_all (\<lambda>op. op_owner op \<noteq> Some ''u1'')
         [Acquire ''u2'' 2 Created, Sweep 1000, Release ''u2'' 1001, TransportClosed 1]
   \<and> client_connected (store (run_ops [Acquire ''u2'' 2 Created, Sweep 1000,
          Release ''u2'' 1001, TransportClosed 1]
          (snd (get_connection ''u1'' 1 Created (initialize 0 [] (new_pool 1 3 300))))) 0)
   \<and> fst (get_connection ''u1'' 2000 ConnectRaises
          (run_ops [Acquire ''u2'' 2 Created, Sweep 1000, Release ''u2'' 1001,
             TransportClosed 1]
          (snd (get_connection ''u1'' 1 Created (initialize 0 [] (new_pool 1 3 300))))))
       = Some 0"
proof -
  let ?p = "initialize 0 [] (new_pool 1 3 300)"
  let ?p1 = "snd (get_connection ''u1'' 1 Created ?p)"
  let ?ops = "[Acquire ''u2'' 2 Created, Sweep 1000, Release ''u2'' 1001, TransportClosed 1]"
  have a: "get_connection ''u1'' 1 Created ?p = (Some 0, ?p1)"
    by (simp add: initialize_def new_pool_def get_connection_def scan_or_create_def
        is_free_live_def bind_connection_def new_connection_def)
  have b: "\<forall>op \<in> set ?ops. op_owner op \<noteq> Some ''u1''" by simp
  have c: "client_connected (store (run_ops ?ops ?p1) 0)"
    by (simp add: run_ops_def initialize_def new_pool_def get_connection_def
        scan_or_create_def is_free_live_def bind_connection_def new_connection_def
        release_connection_def remove_user_connection_def cleanup_idle_connections_def
        idle_candidates_def pop_connection_def upt_rec)
  have b': "list_all (\<lambda>op. op_owner op \<noteq> Some ''u1'') ?ops" by simp
  from get_connection_twice_same[OF a b c, of 2000 ConnectRaises] a b' c
  show ?thesis by blast
qed

section \<open>Exhaustion exactly at the bound\<close>

lemma pool_ready_inv: "pool_ready p \<Longrightarrow> pool_inv p {}"
  by (auto simp: pool_ready_def pool_inv_def list_all_iff filter_empty_conv)

lemma filter_upd_count:
  "distinct xs \<Longrightarrow> a \<in> set xs \<Longrightarrow> \<not> P (f a) \<Longrightarrow> P v \<Longrightarrow>
   length (filter (\<lambda>x. P ((f(a := v)) x)) xs) = Suc (length (filter (\<lambda>x. P (f x)) xs))"
proof (induction xs)
  case Nil then show ?case by simp
next
  case (Cons x xs)
  show ?case
  proof (cases "x = a")
    case True
    with Cons.prems have "a \<notin> set xs" by simp
    then have "filter (\<lambda>x. P ((f(a := v)) x)) xs = filter (\<lambda>x. P (f x)) xs"
      by (intro filter_cong) auto
    with True Cons.prems show ?thesis by simp
  next
    case False
    with Cons show ?thesis by simp
  qed
qed

lemma filter_upd_notin:
  "a \<notin> set xs \<Longrightarrow> filter (\<lambda>x. P ((f(a := v)) x)) xs = filter (\<lambda>x. P (f x)) xs"
  by (intro filter_cong) auto

lemma acquire_step:
  assumes inv: "pool_inv p B" and new: "u \<notin> B" and room: "int (card B) < max_connections p"
  shows "\<exists>c p'. get_connection u now Created p = (Some c, p') \<and> pool_inv p' (insert u B)
           \<and> max_connections p' = max_connections p"
proof -
  from inv new have unbound: "user_connections p u = None"
    by (auto simp: pool_inv_def)
  show ?thesis
  proof (cases "find (is_free_live p) (connections p)")
    case (Some a)
    then have a: "a \<in> set (connections p)" "\<not> in_use (store p a)"
      by (auto simp: find_Some_iff is_free_live_def)
    have cnt: "length (filter (\<lambda>x. in_use (((store p)(a := (store p a)\<lparr>in_use := True, user_id := Some u, last_used := now\<rparr>)) x)) (connections p))
          = Suc (length (filter (\<lambda>x. in_use (store p x)) (connections p)))"
      using inv a by (intro filter_upd_count) (auto simp: pool_inv_def)
    have "pool_inv (bind_connection u now a p) (insert u B)"
      using inv new a cnt unfolding pool_inv_def bind_connection_def
      by (auto simp: card_insert_if)
    with Some unbound show ?thesis
      by (simp add: get_connection_def scan_or_create_def bind_connection_def)
  next
    case None
    then have all_used: "\<forall>a \<in> set (connections p). in_use (store p a)"
      using inv by (auto simp: find_None_iff is_free_live_def pool_inv_def)
    then have "filter (\<lambda>a. in_use (store p a)) (connections p) = connections p"
      by (simp add: filter_id_conv)
    with inv have len: "length (connections p) = card B"
      by (simp add: pool_inv_def)
    let ?a = "next_addr p"
    have fresh: "?a \<notin> set (connections p)"
      using inv by (auto simp: pool_inv_def)
    let ?p' = "p\<lparr>store := (store p)(?a := new_connection now),
                  connections := connections p @ [?a], next_addr := Suc ?a\<rparr>"
    have "pool_inv (bind_connection u now ?a ?p') (insert u B)"
      using inv new fresh len room all_used unfolding pool_inv_def bind_connection_def
      by (auto simp: card_insert_if filter_upd_notin less_Suc_eq filter_id_conv
          new_connection_def)
    with None unbound len room show ?thesis
      by (simp add: get_connection_def scan_or_create_def Let_def bind_connection_def)
  qed
qed

lemma acquire_exhausted:
  assumes inv: "pool_inv p B" and new: "u \<notin> B" and full: "int (card B) = max_connections p"
  shows "get_connection u now outcome p = (None, p)"
proof -
  from inv new have unbound: "user_connections p u = None"
    by (auto simp: pool_inv_def)
  let ?f = "filter (\<lambda>a. in_use (store p a)) (connections p)"
  from inv full have "int (length (connections p)) \<le> int (length ?f)"
    by (simp add: pool_inv_def)
  with length_filter_le[of "\<lambda>a. in_use (store p a)" "connections p"]
  have eq: "length ?f = length (connections p)" by linarith
  then have "\<forall>a \<in> set (connections p). in_use (store p a)"
    by (metis filter_id_conv length_filter_less less_irrefl_nat)
  then have none: "find (is_free_live p) (connections p) = None"
    by (simp add: find_None_iff is_free_live_def)
  from eq inv full have "\<not> int (length (connections p)) < max_connections p"
    by (simp add: pool_inv_def)
  with none unbound show ?thesis
    by (simp add: get_connection_def scan_or_create_def)
qed

lemma acquire_all_inv:
  assumes "pool_inv p B" "distinct (map fst us)" "set (map fst us) \<inter> B = {}"
      and "int (card B) + int (length us) \<le> max_connections p"
  shows "list_all (\<lambda>r. r \<noteq> None) (fst (acquire_all us p))
         \<and> length (fst (acquire_all us p)) = length us
         \<and> pool_inv (snd (acquire_all us p)) (B \<union> set (map fst us))
         \<and> max_connections (snd (acquire_all us p)) = max_connections p"
  using assms
proof (induction us arbitrary: p B)
  case Nil
  then show ?case by simp
next
  case (Cons x us)
  obtain u now where x: "x = (u, now)" by (cases x)
  from Cons.prems x have new: "u \<notin> B" and room: "int (card B) < max_connections p"
    by auto
  from acquire_step[OF Cons.prems(1) new room, of now] obtain c p'
    where step: "get_connection u now Created p = (Some c, p')"
      and inv': "pool_inv p' (insert u B)" and mx: "max_connections p' = max_connections p"
    by blast
  have fin: "finite B" using Cons.prems(1) by (simp add: pool_inv_def)
  have "list_all (\<lambda>r. r \<noteq> None) (fst (acquire_all us p'))
         \<and> length (fst (acquire_all us p')) = length us
         \<and> pool_inv (snd (acquire_all us p')) (insert u B \<union> set (map fst us))
         \<and> max_connections (snd (acquire_all us p')) = max_connections p'"
    using Cons.prems x new fin mx
    by (intro Cons.IH[OF inv']) (auto simp: card_insert_if)
  with step x mx show ?case
    by (simp add: split_beta)
qed

lemma initialize_loop_ready:
  "list_all (\<lambda>a. a < next_addr p) (connections p) \<Longrightarrow> distinct (connections p) \<Longrightarrow>
   list_all (\<lambda>a. \<not> in_use (store p a) \<and> client_connected (store p a)) (connections p) \<Longrightarrow>
   (let q = initialize_loop now os p in
    list_all (\<lambda>a. a < next_addr q) (connections q) \<and> distinct (connections q) \<and>
    list_all (\<lambda>a. \<not> in_use (store q a) \<and> client_connected (store q a)) (connections q)
    \<and> user_connections q = user_connections p
    \<and> length (connections q) \<le> length (connections p) + length os
    \<and> max_connections q = max_connections p)"
proof (induction now os p rule: initialize_loop.induct)
  case (1 now p)
  then show ?case by simp
next
  case (2 now os p)
  let ?p = "p\<lparr>store := (store p)(next_addr p := new_connection now),
          connections := connections p @ [next_addr p],
          next_addr := Suc (next_addr p)\<rparr>"
  have "list_all (\<lambda>a. a < next_addr ?p) (connections ?p)"
    using 2(2) by (auto simp: list_all_iff)
  moreover have "distinct (connections ?p)"
    using 2(2,3) by (auto simp: list_all_iff)
  moreover have "list_all (\<lambda>a. \<not> in_use (store ?p a) \<and> client_connected (store ?p a)) (connections ?p)"
    using 2(2,4) by (auto simp: list_all_iff new_connection_def)
  ultimately show ?case using 2(1) by (simp add: Let_def)
qed (simp_all add: Let_def)

lemma initialize_ready:
  assumes "mn \<le> mx" and "0 \<le> mx"
  shows "pool_ready (initialize now outcomes (new_pool mn mx idle))"
proof -
  let ?p = "new_pool mn mx idle"
  let ?os = "take (nat mn) (outcomes @ replicate (nat mn) Created)"
  define q where "q = initialize_loop now ?os ?p"
  have "let q = initialize_loop now ?os ?p in
    list_all (\<lambda>a. a < next_addr q) (connections q) \<and> distinct (connections q) \<and>
    list_all (\<lambda>a. \<not> in_use (store q a) \<and> client_connected (store q a)) (connections q)
    \<and> user_connections q = user_connections ?p
    \<and> length (connections q) \<le> length (connections ?p) + length ?os
    \<and> max_connections q = max_connections ?p"
    by (rule initialize_loop_ready) (simp_all add: new_pool_def)
  then have props: "list_all (\<lambda>a. a < next_addr q) (connections q)"
    "distinct (connections q)"
    "list_all (\<lambda>a. \<not> in_use (store q a) \<and> client_connected (store q a)) (connections q)"
    "user_connections q = Map.empty"
    "length (connections q) \<le> length ?os" "max_connections q = mx"
    unfolding q_def Let_def by (simp_all add: new_pool_def)
  have "length ?os \<le> nat mn" by simp
  with props(5) assms have len: "int (length (connections q)) \<le> mx" by linarith
  have init: "initialize now outcomes ?p = q\<lparr>initialized := True\<rparr>"
    by (simp add: initialize_def Let_def q_def) (simp add: new_pool_def)
  show ?thesis unfolding init pool_ready_def using props len
    by (simp add: list_all_iff)
qed

text \<open>
  C4, as the code has it. Take a pool as \<open>initialize\<close> leaves it when
  \<open>min_connections\<close> is at most \<open>max_connections\<close> (free live connections, no owner
  bound, at most \<open>max_connections\<close> of them), let creation always succeed and let no
  transport close. After
  \<open>max_connections\<close> acquires by distinct owners with no release in between, every
  one of them has returned a connection, and the acquire of one more owner returns
  \<open>None\<close>, whatever its creation attempt would do.
\<close>

theorem acquire_max_then_exhausted:
  assumes "pool_ready p"
      and "distinct (map fst us @ [u])"
      and "int (length us) = max_connections p"
  shows "list_all (\<lambda>r. r \<noteq> None) (fst (acquire_all us p))
         \<and> length (fst (acquire_all us p)) = length us
         \<and> fst (get_connection u now outcome (snd (acquire_all us p))) = None"
proof -
  have inv: "pool_inv p {}" by (rule pool_ready_inv[OF assms(1)])
  have d: "distinct (map fst us)" and new: "u \<notin> set (map fst us)"
    using assms(2) by auto
  have all: "list_all (\<lambda>r. r \<noteq> None) (fst (acquire_all us p))
         \<and> length (fst (acquire_all us p)) = length us
         \<and> pool_inv (snd (acquire_all us p)) ({} \<union> set (map fst us))
         \<and> max_connections (snd (acquire_all us p)) = max_connections p"
    using assms(3) by (intro acquire_all_inv[OF inv d]) auto
  have "card (set (map fst us)) = length us"
    using d by (metis distinct_card length_map)
  with all assms(3) have full: "int (card ({} \<union> set (map fst us))) = max_connections (snd (acquire_all us p))"
    by simp
  from all have inv': "pool_inv (snd (acquire_all us p)) ({} \<union> set (map fst us))" by simp
  have "get_connection u now outcome (snd (acquire_all us p)) = (None, snd (acquire_all us p))"
    using new by (intro acquire_exhausted[OF inv' _ full]) simp
  with all show ?thesis by simp
qed

theorem acquire_max_then_exhausted_witness:
  "pool_ready (initialize 0 [] (new_pool 2 3 300))
   \<and> distinct (map fst [(''u1'', 1), (''u2'', 2), (''u3'', 3::real)] @ [''u4''])
   \<and> int (length [(''u1'', 1), (''u2'', 2), (''u3'', 3::real)])
       = max_connections (initialize 0 [] (new_pool 2 3 300))
   \<and> fst (acquire_all [(''u1'', 1), (''u2'', 2), (''u3'', 3)]
            (initialize 0 [] (new_pool 2 3 300))) = [Some 0, Some 1, Some 2]
   \<and> fst (get_connection ''u4'' 4 Created
            (snd (acquire_all [(''u1'', 1), (''u2'', 2), (''u3'', 3)]
               (initialize 0 [] (new_pool 2 3 300))))) = None"
proof -
  let ?p = "initialize 0 [] (new_pool 2 3 300)"
  let ?us = "[(''u1'', 1), (''u2'', 2), (''u3'', 3::real)]"
  have r: "pool_ready ?p" by (rule initialize_ready) simp_all
  have d: "distinct (map fst ?us @ [''u4''])" by simp
  have m: "int (length ?us) = max_connections ?p"
    by (simp add: initialize_def new_pool_def numeral_2_eq_2)
  have e: "fst (acquire_all ?us ?p) = [Some 0, Some 1, Some 2]"
    by (simp add: initialize_def new_pool_def numeral_2_eq_2
      get_connection_def scan_or_create_def is_free_live_def bind_connection_def
      new_connection_def split_beta)
  from acquire_max_then_exhausted[OF r d m, of 4 Created] r d m e show ?thesis
    by simp
qed

text \<open>
  Without these provisos the bound is not where the acquires stop. With
  \<open>min_connections = 3\<close> and \<open>max_connections = 2\<close>, \<open>initialize\<close> creates three
  connections and the third owner is served. With \<open>max_connections = 2\<close> and one
  connection whose transport has closed, the dead entry still counts: the first owner
  gets a new connection and the second owner gets \<open>None\<close>.
\<close>

theorem acquire_bound_needs_ready_pool:
  "max_connections (initialize 0 [] (new_pool 3 2 300)) = 2
   \<and> fst (acquire_all [(''u1'', 1), (''u2'', 2)] (initialize 0 [] (new_pool 3 2 300)))
       = [Some 0, Some 1]
   \<and> fst (get_connection ''u3'' 3 Created
            (snd (acquire_all [(''u1'', 1), (''u2'', 2)]
                   (initialize 0 [] (new_pool 3 2 300)))))
       = Some 2
   \<and> max_connections (apply_op (TransportClosed 0) (initialize 0 [] (new_pool 1 2 300))) = 2
   \<and> fst (acquire_all [(''u1'', 1), (''u2'', 2)]
            (apply_op (TransportClosed 0) (initialize 0 [] (new_pool 1 2 300))))
       = [Some 1, None]"
  by (simp add: initialize_def new_pool_def numeral_3_eq_3
      get_connection_def scan_or_create_def is_free_live_def bind_connection_def
      new_connection_def split_beta)


section \<open>The streaming filter against the whole-string filter\<close>

lemma think_open_eq: "think_open = [60, 116, 104, 105, 110, 107, 62]"
  by (simp add: think_open_def ustr_def)

lemma think_close_eq: "think_close = [60, 47, 116, 104, 105, 110, 107, 62]"
  by (simp add: think_close_def ustr_def)

lemma LT_eq: "LT = 60" by (simp add: LT_def)

lemma NL_eq: "NL = 10" by (simp add: NL_def)

lemma not_isspace_LT: "\<not> isspace LT" by (simp add: isspace_def LT_eq)

subsection \<open>Chunk boundaries do not matter\<close>

lemma fold_stream_chunk: "fold stream_chunk chunks st = fold stream_char (concat chunks) st"
  by (induction chunks arbitrary: st) (simp_all add: stream_chunk_def)

lemma concat_one_by_one: "concat (one_by_one s) = s"
  by (induction s) (simp_all add: one_by_one_def)

subsection \<open>The automaton on text without markers\<close>

lemma normal_text:
  assumes "\<not> in_think_block st" "\<not> is_start_output st" "pending_content st = []"
      and "LT \<notin> set t"
  shows "fold stream_char t st = st\<lparr>sent := sent st @ map (\<lambda>c. [c]) t\<rparr>"
  using assms
proof (induction t arbitrary: st)
  case Nil then show ?case by simp
next
  case (Cons c t)
  have step: "stream_char c st = st\<lparr>sent := sent st @ [[c]]\<rparr>"
    using Cons.prems by (simp add: stream_char_def)
  show ?case using Cons.prems by (simp add: step Cons.IH)
qed

lemma leading_text:
  assumes "\<not> in_think_block st" "is_start_output st" "pending_content st = []"
      and "LT \<notin> set t"
  shows "fold stream_char t st =
         (if list_all isspace t then st
          else st\<lparr>is_start_output := False,
                  sent := sent st @ map (\<lambda>c. [c]) (dropWhile isspace t)\<rparr>)"
  using assms
proof (induction t arbitrary: st)
  case Nil then show ?case by simp
next
  case (Cons c t)
  show ?case
  proof (cases "isspace c")
    case True
    then have "stream_char c st = st" using Cons.prems by (simp add: stream_char_def)
    with True Cons show ?thesis by simp
  next
    case False
    have step: "stream_char c st = st\<lparr>is_start_output := False, sent := sent st @ [[c]]\<rparr>"
      using Cons.prems False by (simp add: stream_char_def)
    have "fold stream_char t (stream_char c st)
          = (stream_char c st)\<lparr>sent := sent (stream_char c st) @ map (\<lambda>c. [c]) t\<rparr>"
      using Cons.prems by (intro normal_text) (simp_all add: step)
    with False show ?thesis by (simp add: step)
  qed
qed

lemma hidden_text:
  assumes "in_think_block st" "pending_content st = []" "LT \<notin> set h"
  shows "fold stream_char h st = st"
  using assms
proof (induction h arbitrary: st)
  case Nil then show ?case by simp
next
  case (Cons c h)
  then have "stream_char c st = st" by (simp add: stream_char_def)
  with Cons show ?case by simp
qed

lemma open_marker:
  assumes "\<not> in_think_block st" "pending_content st = []"
  shows "fold stream_char think_open st = st\<lparr>in_think_block := True\<rparr>"
  using assms
  by (cases "is_start_output st")
     (simp_all add: think_open_eq stream_char_def LT_eq isspace_def)

lemma close_marker:
  assumes "in_think_block st" "pending_content st = []"
  shows "fold stream_char think_close st = st\<lparr>in_think_block := False\<rparr>"
  using assms
  by (simp add: think_close_eq stream_char_def LT_eq)


lemma text_segment:
  assumes "\<not> in_think_block st" "pending_content st = []" "LT \<notin> set t"
  shows "\<not> in_think_block (fold stream_char t st)
       \<and> pending_content (fold stream_char t st) = []
       \<and> is_start_output (fold stream_char t st) = (is_start_output st \<and> list_all isspace t)
       \<and> concat (sent (fold stream_char t st))
           = concat (sent st) @ (if is_start_output st then dropWhile isspace t else t)"
proof (cases "is_start_output st")
  case True
  have "concat (map (\<lambda>c. [c]) (dropWhile isspace t)) = dropWhile isspace t"
    by (induction "dropWhile isspace t") simp_all
  moreover have "list_all isspace t \<Longrightarrow> dropWhile isspace t = []"
    by (simp add: list_all_iff)
  ultimately show ?thesis
    using assms True by (simp add: leading_text)
next
  case False
  have "concat (map (\<lambda>c. [c]) t) = t" by (induction t) simp_all
  then show ?thesis using assms False by (simp add: normal_text)
qed

lemma hidden_span:
  assumes "\<not> in_think_block st" "pending_content st = []" "LT \<notin> set h"
  shows "fold stream_char (think_open @ h @ think_close) st = st"
proof -
  let ?s1 = "st\<lparr>in_think_block := True\<rparr>"
  have "fold stream_char think_open st = ?s1"
    using assms by (simp add: open_marker)
  moreover have "fold stream_char h ?s1 = ?s1"
    using assms by (intro hidden_text) simp_all
  moreover have "fold stream_char think_close ?s1 = ?s1\<lparr>in_think_block := False\<rparr>"
    using assms by (intro close_marker) simp_all
  moreover have "?s1\<lparr>in_think_block := False\<rparr> = st"
    using assms by simp
  ultimately show ?thesis by simp
qed

lemma spans_text_Cons:
  "spans_text t0 (ht # spans)
   = t0 @ (think_open @ fst ht @ think_close) @ spans_text (snd ht) spans"
  by (simp add: spans_text_def span_text_def)

lemma visible_text_Cons:
  "visible_text t0 (ht # spans) = t0 @ visible_text (snd ht) spans"
  by (simp add: visible_text_def)

lemma dropWhile_append_all:
  "dropWhile P (xs @ ys) = (if list_all P xs then dropWhile P ys else dropWhile P xs @ ys)"
  by (induction xs) simp_all

lemma stream_spans:
  assumes "\<not> in_think_block st" "pending_content st = []" "plain t0 spans"
  shows "\<not> in_think_block (fold stream_char (spans_text t0 spans) st)
       \<and> pending_content (fold stream_char (spans_text t0 spans) st) = []
       \<and> concat (sent (fold stream_char (spans_text t0 spans) st))
           = concat (sent st) @ (if is_start_output st
                                then dropWhile isspace (visible_text t0 spans)
                                else visible_text t0 spans)"
  using assms
proof (induction spans arbitrary: t0 st)
  case Nil
  then have "LT \<notin> set t0" by (simp add: plain_def)
  from text_segment[OF Nil.prems(1,2) this] show ?case
    by (simp add: spans_text_def visible_text_def)
next
  case (Cons ht spans)
  from Cons.prems(3) have t0: "LT \<notin> set t0" and h: "LT \<notin> set (fst ht)"
    and rest: "plain (snd ht) spans"
    by (simp_all add: plain_def)
  let ?s1 = "fold stream_char t0 st"
  note seg = text_segment[OF Cons.prems(1,2) t0]
  have hid: "fold stream_char (think_open @ fst ht @ think_close) ?s1 = ?s1"
    using seg h by (intro hidden_span) simp_all
  have run: "fold stream_char (spans_text t0 (ht # spans)) st
             = fold stream_char (spans_text (snd ht) spans) ?s1"
    using hid by (simp add: spans_text_Cons)
  have ih: "\<not> in_think_block (fold stream_char (spans_text (snd ht) spans) ?s1)
       \<and> pending_content (fold stream_char (spans_text (snd ht) spans) ?s1) = []
       \<and> concat (sent (fold stream_char (spans_text (snd ht) spans) ?s1))
           = concat (sent ?s1) @ (if is_start_output ?s1
                                then dropWhile isspace (visible_text (snd ht) spans)
                                else visible_text (snd ht) spans)"
    using seg rest by (intro Cons.IH) simp_all
  show ?case
    unfolding run visible_text_Cons using ih seg
    by (auto simp: dropWhile_append_all list_all_iff)
qed

lemma stream_visible_spans:
  assumes "plain t0 spans" "concat chunks = spans_text t0 spans"
  shows "stream_visible chunks = lstrip (visible_text t0 spans)"
proof -
  let ?st = "fold stream_char (spans_text t0 spans) filter_init"
  have init: "\<not> in_think_block filter_init" "pending_content filter_init = []"
    by (simp_all add: filter_init_def)
  from stream_spans[OF init assms(1)]
  have fin: "pending_content ?st = []"
    and out: "concat (sent ?st) = lstrip (visible_text t0 spans)"
    by (simp_all add: filter_init_def lstrip_def)
  from fin have "stream_finish ?st = ?st" by (simp add: stream_finish_def)
  with out show ?thesis
    by (simp add: stream_visible_def stream_filter_def fold_stream_chunk assms(2))
qed

subsection \<open>The whole-string filter on the same inputs\<close>

lemma sub_think_text:
  "LT \<notin> set t \<Longrightarrow> sub_think (t @ rest) = t @ sub_think rest"
proof (induction t)
  case Nil then show ?case by simp
next
  case (Cons c t)
  then have "c \<noteq> 60" by (simp add: LT_eq)
  then have "\<not> prefix think_open (c # t @ rest)" by (simp add: think_open_eq)
  with Cons show ?case by simp
qed

lemma find_close_text:
  "LT \<notin> set h \<Longrightarrow> find_close (h @ think_close @ rest) = Some rest"
proof (induction h)
  case Nil
  show ?case by (simp add: think_close_eq)
next
  case (Cons c h)
  then have "c \<noteq> 60" by (simp add: LT_eq)
  then have "\<not> prefix think_close (c # h @ think_close @ rest)" by (simp add: think_close_eq)
  with Cons show ?case by simp
qed

lemma sub_think_span:
  assumes "LT \<notin> set h"
  shows "sub_think (think_open @ h @ think_close @ rest) = sub_think rest"
proof -
  let ?X = "[116, 104, 105, 110, 107, 62] @ h @ think_close @ rest"
  have eq: "think_open @ h @ think_close @ rest = 60 # ?X"
    by (simp add: think_open_eq)
  have pre: "prefix think_open (60 # ?X)"
    by (simp add: think_open_eq)
  have dr: "drop (length think_open) (60 # ?X) = h @ think_close @ rest"
    by (simp add: think_open_eq)
  have "sub_think (60 # ?X) =
        (case find_close (drop (length think_open) (60 # ?X)) of
           Some rest \<Rightarrow> sub_think rest | None \<Rightarrow> 60 # sub_think ?X)"
    using pre by (simp only: sub_think.simps if_True)
  also have "\<dots> = sub_think rest"
    by (simp only: dr find_close_text[OF assms] option.case)
  finally show ?thesis by (simp only: eq)
qed

lemma sub_think_spans:
  "plain t0 spans \<Longrightarrow> sub_think (spans_text t0 spans) = visible_text t0 spans"
proof (induction spans arbitrary: t0)
  case Nil
  then show ?case
    using sub_think_text[of t0 "[]"] by (simp add: plain_def spans_text_def visible_text_def)
next
  case (Cons ht spans)
  from Cons.prems have t0: "LT \<notin> set t0" and h: "LT \<notin> set (fst ht)"
    and rest: "plain (snd ht) spans"
    by (simp_all add: plain_def)
  have "sub_think (spans_text t0 (ht # spans))
        = t0 @ sub_think (think_open @ fst ht @ think_close @ spans_text (snd ht) spans)"
    unfolding spans_text_Cons using sub_think_text[OF t0] by simp
  also have "\<dots> = t0 @ sub_think (spans_text (snd ht) spans)"
    by (simp only: sub_think_span[OF h])
  also have "\<dots> = t0 @ visible_text (snd ht) spans"
    by (simp only: Cons.IH[OF rest])
  finally show ?case by (simp add: visible_text_Cons)
qed

text \<open>
  C1, as the code has it. Take an input made of text and well-formed hidden spans in
  which \<open><\<close> occurs only as the first character of the markers (no span, one span
  or several), cut into chunks in any way, in particular one character at a time. The
  streaming filter shows the input with the spans removed and the leading whitespace
  dropped, whatever the chunking; the first substitution of \<open>filter_think_tags\<close>
  removes the same spans. The two outputs are equal exactly when the blank-line
  collapsing and the final \<open>strip()\<close> of \<open>filter_think_tags\<close> do no more than drop the
  leading whitespace: the streaming filter neither collapses blank lines nor drops
  trailing whitespace.
\<close>

theorem stream_filter_on_plain_spans:
  assumes "plain t0 spans" and "concat chunks = spans_text t0 spans"
  shows "stream_visible chunks = lstrip (sub_think (spans_text t0 spans))
       \<and> stream_visible (one_by_one (spans_text t0 spans)) = stream_visible chunks
       \<and> sub_think (spans_text t0 spans) = visible_text t0 spans
       \<and> (stream_visible chunks = filter_think_tags (spans_text t0 spans)
            \<longleftrightarrow> strip (sub_blank_lines (visible_text t0 spans))
                  = lstrip (visible_text t0 spans))"
proof -
  have a: "stream_visible chunks = lstrip (visible_text t0 spans)"
    by (rule stream_visible_spans[OF assms])
  have b: "stream_visible (one_by_one (spans_text t0 spans)) = lstrip (visible_text t0 spans)"
    by (rule stream_visible_spans[OF assms(1) concat_one_by_one])
  have c: "sub_think (spans_text t0 spans) = visible_text t0 spans"
    by (rule sub_think_spans[OF assms(1)])
  show ?thesis
    unfolding a b c filter_think_tags_def by auto
qed

theorem stream_filter_on_plain_spans_witness:
  "plain (ustr ''  '') [(ustr ''secret'', ustr ''Hello'')]
   \<and> concat (one_by_one (ustr ''  <think>secret</think>Hello''))
       = spans_text (ustr ''  '') [(ustr ''secret'', ustr ''Hello'')]
   \<and> stream_visible (one_by_one (ustr ''  <think>secret</think>Hello'')) = ustr ''Hello''
   \<and> filter_think_tags (ustr ''  <think>secret</think>Hello'') = ustr ''Hello''"
proof -
  let ?t0 = "ustr ''  ''" and ?sp = "[(ustr ''secret'', ustr ''Hello'')]"
  let ?s = "ustr ''  <think>secret</think>Hello''"
  have p: "plain ?t0 ?sp"
    by (simp add: plain_def ustr_def LT_def)
  have s: "spans_text ?t0 ?sp = ?s"
    by (simp add: spans_text_def span_text_def think_open_def think_close_def ustr_def)
  have c: "concat (one_by_one ?s) = spans_text ?t0 ?sp"
    by (simp only: concat_one_by_one s)
  have v: "lstrip (visible_text ?t0 ?sp) = ustr ''Hello''"
    by (simp add: visible_text_def lstrip_def ustr_def isspace_def)
  have w: "strip (sub_blank_lines (visible_text ?t0 ?sp)) = ustr ''Hello''"
    by (simp add: visible_text_def strip_def lstrip_def rstrip_def ustr_def isspace_def NL_def)
  note T = stream_filter_on_plain_spans[OF p c, unfolded s]
  from T have e1: "stream_visible (one_by_one ?s) = lstrip (sub_think ?s)"
    and e3: "sub_think ?s = visible_text ?t0 ?sp"
    and e4: "stream_visible (one_by_one ?s) = filter_think_tags ?s
            \<longleftrightarrow> strip (sub_blank_lines (visible_text ?t0 ?sp))
                  = lstrip (visible_text ?t0 ?sp)"
    by blast+
  have vis: "stream_visible (one_by_one ?s) = ustr ''Hello''"
    by (simp only: e1 e3 v)
  have "stream_visible (one_by_one ?s) = filter_think_tags ?s"
    by (simp only: e4 v w)
  with vis have "filter_think_tags ?s = ustr ''Hello''" by simp
  with vis p c show ?thesis by blast
qed

text \<open>
  The two filters differ on inputs without any hidden span: on trailing whitespace and
  on a blank line. They also differ when a stray \<open><\<close> stands before a marker.
\<close>

theorem stream_filter_differs_from_whole_filter:
  "stream_visible (one_by_one (ustr ''Hi '')) = ustr ''Hi ''
   \<and> filter_think_tags (ustr ''Hi '') = ustr ''Hi''
   \<and> stream_visible (one_by_one [97, 10, 10, 98]) = [97, 10, 10, 98]
   \<and> filter_think_tags [97, 10, 10, 98] = [97, 10, 98]
   \<and> stream_visible (one_by_one (ustr ''a<<think>x</think>b'')) = ustr ''a<<think>x</think>b''
   \<and> filter_think_tags (ustr ''a<<think>x</think>b'') = ustr ''a<b''
   \<and> stream_visible (one_by_one (ustr ''Hi '')) \<noteq> filter_think_tags (ustr ''Hi '')"
  by (simp add: stream_visible_def stream_filter_def one_by_one_def stream_chunk_def
      stream_finish_def filter_init_def stream_char_def filter_think_tags_def strip_def
      lstrip_def rstrip_def ustr_def isspace_def NL_def LT_def think_open_def think_close_def
      after_last_newline_def)


section \<open>A character that breaks a pending start marker\<close>

text \<open>
  C10, as the code has it. Outside a think block, with a proper prefix of the start
  marker pending, a character that does not continue the marker is appended to the
  buffer, the buffer is sent as one message, and the buffer is empty afterwards, so the
  character starts no new match; in the normal state this holds for every character,
  \<open><\<close> included. In the leading state it holds for every character that is neither
  whitespace nor \<open><\<close>.
\<close>

theorem breaking_char_consumed:
  assumes "\<not> in_think_block st"
      and "pending_content st \<noteq> []" and "strict_prefix (pending_content st) think_open"
      and "\<not> prefix (pending_content st @ [char]) think_open"
      and "is_start_output st \<longrightarrow> \<not> isspace char \<and> char \<noteq> LT"
  shows "stream_char char st = flushed_with char st
       \<and> pending_content (stream_char char st) = []
       \<and> concat (sent (stream_char char st))
           = concat (sent st) @ pending_content st @ [char]"
proof -
  from assms(3) have len: "length (pending_content st) < 7"
    using prefix_length_less[of "pending_content st" think_open]
    by (simp add: think_open_eq)
  from assms(4) have ne: "pending_content st @ [char] \<noteq> think_open" by auto
  have "stream_char char st = flushed_with char st"
  proof (cases "is_start_output st")
    case True
    with assms len ne show ?thesis
      by (simp add: stream_char_def flushed_with_def Let_def)
  next
    case False
    with assms len ne show ?thesis
      by (simp add: stream_char_def flushed_with_def Let_def)
  qed
  then show ?thesis by (simp add: flushed_with_def)
qed

theorem breaking_char_consumed_witness:
  "stream_char LT \<lparr>in_think_block = False, is_start_output = False,
                    pending_content = ustr ''<th'', sent = [ustr ''a'']\<rparr>
   = \<lparr>in_think_block = False, is_start_output = False, pending_content = [],
      sent = [ustr ''a'', ustr ''<th<'']\<rparr>"
proof -
  let ?st = "\<lparr>in_think_block = False, is_start_output = False,
              pending_content = ustr ''<th'', sent = [ustr ''a'']\<rparr>"
  have 1: "\<not> in_think_block ?st" by simp
  have 2: "pending_content ?st \<noteq> []" by (simp add: ustr_def)
  have 3: "strict_prefix (pending_content ?st) think_open"
    by (simp add: ustr_def think_open_def strict_prefix_def)
  have 4: "\<not> prefix (pending_content ?st @ [LT]) think_open"
    by (simp add: ustr_def think_open_def LT_def)
  have 5: "is_start_output ?st \<longrightarrow> \<not> isspace LT \<and> LT \<noteq> LT" by simp
  from breaking_char_consumed[OF 1 2 3 4 5] show ?thesis
    by (simp add: flushed_with_def ustr_def LT_def)
qed

text \<open>
  In the leading state whitespace is skipped before the buffer is looked at, and a
  \<open><\<close> replaces the buffer by \<open><\<close>: the breaking character is not sent with the
  buffer, and \<open><\<close> does begin a new match while one is pending.
\<close>

theorem leading_breaking_char_not_consumed:
  "strict_prefix (ustr ''<t'') think_open
   \<and> \<not> prefix (ustr ''<t'' @ [LT]) think_open
   \<and> stream_char LT (leading_pending (ustr ''<t'')) = leading_pending [LT]
   \<and> stream_char LT (leading_pending (ustr ''<t'')) \<noteq> flushed_with LT (leading_pending (ustr ''<t''))
   \<and> \<not> prefix (ustr ''<t'' @ ustr '' '') think_open
   \<and> stream_char 32 (leading_pending (ustr ''<t'')) = leading_pending (ustr ''<t'')
   \<and> stream_visible (one_by_one (ustr ''<t<b'')) = ustr ''<b''"
  by (simp add: leading_pending_def flushed_with_def stream_char_def ustr_def LT_def
      think_open_def strict_prefix_def isspace_def
      stream_visible_def stream_filter_def one_by_one_def stream_chunk_def
      stream_finish_def filter_init_def)


section \<open>Deduplication of final results\<close>

lemma not_isspace_60: "\<not> isspace 60" by (simp add: isspace_def)

lemma match_tag_needs_lt: "c \<noteq> 60 \<Longrightarrow> match_tag (c # cs) = None"
  by (simp add: match_tag_def ustr_def)

lemma sub_tags3_blank: "list_all isspace t \<Longrightarrow> sub_tags3 t = t"
proof (induction t)
  case Nil then show ?case by simp
next
  case (Cons c t)
  then have "c \<noteq> 60" using not_isspace_60 by auto
  then have "match_tags3 (c # t) = None"
    by (simp add: match_tags3_def match_tag_needs_lt)
  with Cons show ?case by simp
qed

lemma sub_tag1_blank: "list_all isspace t \<Longrightarrow> sub_tag1 t = t"
proof (induction t)
  case Nil then show ?case by simp
next
  case (Cons c t)
  then have "c \<noteq> 60" using not_isspace_60 by auto
  then have "match_tag1 (c # t) = None"
    by (simp add: match_tag1_def match_tag_needs_lt)
  with Cons show ?case by simp
qed

lemma strip_blank: "list_all isspace t \<Longrightarrow> strip t = []"
proof -
  assume "list_all isspace t"
  then have d: "dropWhile isspace t = []"
    using dropWhile_eq_Nil_conv[of isspace t] by (simp only: list_all_iff)
  show ?thesis
    by (simp only: strip_def lstrip_def rstrip_def d rev.simps dropWhile.simps)
qed

lemma rstrip_decomp: "s = rstrip s @ rev (takeWhile isspace (rev s))"
  unfolding rstrip_def
  by (metis rev_append rev_rev_ident takeWhile_dropWhile_id)

lemma strip_ends:
  assumes "strip s \<noteq> []"
  shows "\<not> isspace (hd (strip s))" and "\<not> isspace (last (strip s))"
proof -
  let ?y = "lstrip s"
  from assms have y: "?y \<noteq> []" by (auto simp: strip_def rstrip_def)
  then have hy: "\<not> isspace (hd ?y)"
    unfolding lstrip_def by (rule hd_dropWhile)
  from assms have ne: "dropWhile isspace (rev ?y) \<noteq> []"
    by (simp add: strip_def rstrip_def)
  have "hd ?y = hd (rstrip ?y)"
    using rstrip_decomp[of ?y] assms by (metis hd_append2 strip_def)
  with hy show "\<not> isspace (hd (strip s))" by (simp add: strip_def)
  have "last (rstrip ?y) = hd (dropWhile isspace (rev ?y))"
    using ne by (simp add: rstrip_def last_rev)
  with hd_dropWhile[OF ne] show "\<not> isspace (last (strip s))"
    by (simp add: strip_def)
qed

lemma strip_fixed:
  assumes "s \<noteq> []" "\<not> isspace (hd s)" "\<not> isspace (last s)"
  shows "strip s = s"
proof -
  from assms have "lstrip s = s" by (cases s) (simp_all add: lstrip_def)
  moreover from assms have "rstrip s = s"
    by (cases "rev s") (simp_all add: rstrip_def last_rev[symmetric] hd_rev)
  ultimately show ?thesis by (simp add: strip_def)
qed

lemma strip_strip: "strip (strip s) = strip s"
proof (cases "strip s = []")
  case True
  have "strip [] = []" by (simp add: strip_def lstrip_def rstrip_def)
  with True show ?thesis by simp
next
  case False
  then show ?thesis using strip_ends[OF False] by (intro strip_fixed)
qed

lemma strip_clean: "strip (clean_recognition_text t) = clean_recognition_text t"
  by (simp add: clean_recognition_text_def strip_strip)
     (simp add: strip_def lstrip_def rstrip_def)

lemma clean_blank: "list_all isspace t \<Longrightarrow> clean_recognition_text t = []"
  by (simp add: clean_recognition_text_def sub_tags3_blank sub_tag1_blank strip_blank)

lemma handle_final_novel:
  assumes "\<not> is_ai_speaking s" "is_running s" "is_final_mode mode"
      and "clean_recognition_text t \<noteq> []"
      and "strip (clean_recognition_text t) \<noteq> []"
      and "clean_recognition_text t \<noteq> last_complete_text s"
  shows "handle_response (final_message mode t) s
         = ([RecognitionFinal (clean_recognition_text t), LlmCall (clean_recognition_text t)],
            s\<lparr>accumulated_text := t, last_complete_text := clean_recognition_text t,
              is_ai_speaking := False\<rparr>)"
proof -
  from assms(3) have "get_mode (final_message mode t) \<noteq> ustr ''2pass-online''"
    by (auto simp: is_final_mode_def get_mode_def final_message_def ustr_def)
  with assms show ?thesis
    by (auto simp: handle_response_def final_message_def is_final_mode_def get_mode_def
        Let_def call_llm_and_respond_def llm_begin_def llm_end_def)
qed

lemma handle_final_repeat:
  assumes "is_final_mode mode" "clean_recognition_text t = last_complete_text s"
  shows "llm_calls (fst (handle_response (final_message mode t) s)) = []
       \<and> last_complete_text (snd (handle_response (final_message mode t) s))
           = last_complete_text s"
  using assms
  by (auto simp: handle_response_def final_message_def Let_def)


lemma handle_blank_no_call:
  assumes "msg_text data = Some b" "list_all isspace b"
  shows "llm_calls (fst (handle_response data s)) = []"
  using assms clean_blank[OF assms(2)]
  by (simp add: handle_response_def Let_def)

text \<open>
  C6. Two final results (mode \<open>2pass-offline\<close> or \<open>offline\<close>) that carry the same
  text, handled one after the other by a running listener with no LLM call in flight,
  trigger exactly one LLM call, with the cleaned text, when that text is not empty and
  is not the last finalized text already: the repeat is ignored. A final result whose
  text is empty or whitespace only triggers no LLM call, in any session state.
\<close>

theorem identical_finals_one_llm_call:
  assumes "\<not> is_ai_speaking s" and "is_running s"
      and "is_final_mode mode1" and "is_final_mode mode2"
      and "clean_recognition_text t \<noteq> []"
      and "clean_recognition_text t \<noteq> last_complete_text s"
  shows "llm_calls (fst (listen [final_message mode1 t, final_message mode2 t] s))
           = [clean_recognition_text t]
       \<and> (list_all isspace b \<longrightarrow>
            llm_calls (fst (handle_response (final_message mode b) s')) = [])"
proof -
  let ?d = "clean_recognition_text t"
  let ?s1 = "s\<lparr>accumulated_text := t, last_complete_text := ?d, is_ai_speaking := False\<rparr>"
  have st: "strip ?d \<noteq> []" using assms(5) by (simp add: strip_clean)
  have first: "handle_response (final_message mode1 t) s
               = ([RecognitionFinal ?d, LlmCall ?d], ?s1)"
    by (rule handle_final_novel[OF assms(1,2,3,5) st assms(6)])
  have second: "llm_calls (fst (handle_response (final_message mode2 t) ?s1)) = []"
    using handle_final_repeat[OF assms(4), of t ?s1] by simp
  have run: "is_running ?s1" using assms(2) by simp
  have "llm_calls (fst (listen [final_message mode1 t, final_message mode2 t] s)) = [?d]"
    using assms(2) run second by (simp add: first split_beta)
  moreover have "list_all isspace b \<longrightarrow>
            llm_calls (fst (handle_response (final_message mode b) s')) = []"
    using handle_blank_no_call[of "final_message mode b" b s']
    by (simp add: final_message_def)
  ultimately show ?thesis by simp
qed

theorem identical_finals_one_llm_call_witness:
  "llm_calls (fst (listen [final_message (ustr ''2pass-offline'') (ustr ''<|zh|> hello ''),
                           final_message (ustr ''2pass-offline'') (ustr ''<|zh|> hello '')]
                     new_session)) = [ustr ''hello'']
   \<and> llm_calls (fst (handle_response (final_message (ustr ''offline'') (ustr ''  ''))
                     new_session)) = []"
proof -
  let ?t = "ustr ''<|zh|> hello ''"
  have c: "clean_recognition_text ?t = ustr ''hello''"
    by (simp add: clean_recognition_text_def ustr_def match_tags3_def match_tag1_def
        match_tag_def BAR_def strip_def lstrip_def rstrip_def isspace_def)
  have 1: "\<not> is_ai_speaking new_session" and 2: "is_running new_session"
    by (simp_all add: new_session_def)
  have 3: "is_final_mode (ustr ''2pass-offline'')" by (simp add: is_final_mode_def)
  have 5: "clean_recognition_text ?t \<noteq> []"
    by (simp only: c) (simp add: ustr_def)
  have 6: "clean_recognition_text ?t \<noteq> last_complete_text new_session"
    by (simp only: c) (simp add: ustr_def new_session_def)
  have b: "list_all isspace (ustr ''  '')" by (simp add: ustr_def isspace_def)
  from identical_finals_one_llm_call[OF 1 2 3 3 5 6,
      of "ustr ''  ''" "ustr ''offline''" new_session] b c
  show ?thesis by simp
qed

section \<open>The listener while an LLM call is in flight\<close>







lemma handle_response_running:
  "is_running (snd (handle_response data s)) = is_running s"
  by (simp add: handle_response_def Let_def call_llm_and_respond_def llm_begin_def
      llm_end_def split: option.splits)


























section \<open>Batch recognition\<close>

lemma audio_chunks_concat: "concat (audio_chunks pcm pos) = drop pos pcm"
proof (induction pcm pos rule: audio_chunks.induct)
  case (1 pcm pos)
  show ?case
  proof (cases "pos < length pcm")
    case True
    then have ne: "length (take chunk_size (drop pos pcm)) \<noteq> 0"
      by (simp add: chunk_size_def)
    have ih: "concat (audio_chunks pcm (pos + chunk_size)) = drop (pos + chunk_size) pcm"
      by (rule "1.IH"[OF True refl ne])
    have unf: "audio_chunks pcm pos
        = take chunk_size (drop pos pcm) # audio_chunks pcm (pos + chunk_size)"
      using True ne by (subst audio_chunks.simps) (simp add: Let_def)
    have "take chunk_size (drop pos pcm) @ drop (pos + chunk_size) pcm = drop pos pcm"
      using append_take_drop_id[of chunk_size "drop pos pcm"]
      by (simp only: drop_drop add.commute)
    with ih unf show ?thesis by (simp only: concat.simps)
  next
    case False
    then show ?thesis by (subst audio_chunks.simps) simp
  qed
qed

lemma audio_chunks_sizes:
  "list_all (\<lambda>f. 0 < length f \<and> length f \<le> chunk_size) (audio_chunks pcm pos)
   \<and> list_all (\<lambda>f. length f = chunk_size) (butlast (audio_chunks pcm pos))"
proof (induction pcm pos rule: audio_chunks.induct)
  case (1 pcm pos)
  show ?case
  proof (cases "pos < length pcm")
    case True
    then have ne: "length (take chunk_size (drop pos pcm)) \<noteq> 0"
      by (simp add: chunk_size_def)
    note ih = "1.IH"[OF True refl ne]
    have unf: "audio_chunks pcm pos
        = take chunk_size (drop pos pcm) # audio_chunks pcm (pos + chunk_size)"
      using True ne by (subst audio_chunks.simps) (simp add: Let_def)
    show ?thesis
    proof (cases "audio_chunks pcm (pos + chunk_size) = []")
      case True
      with unf ne show ?thesis by simp
    next
      case False
      then have "pos + chunk_size < length pcm"
        by (subst (asm) audio_chunks.simps) (simp split: if_splits)
      then have "length (take chunk_size (drop pos pcm)) = chunk_size" by simp
      with unf ih False show ?thesis by (simp add: chunk_size_def)
    qed
  next
    case False
    then have "audio_chunks pcm pos = []" by (subst audio_chunks.simps) simp
    then show ?thesis by simp
  qed
qed


lemma returns_only_open:
  assumes "handle_recognition_results stop ws outcomes accumulated = Some y"
  shows "ws"
  using assms
  by (rule handle_recognition_results.raw_induct
        [rotated 1, where P = "\<lambda>_ ws _ _ _. ws"])
     (auto split: if_splits)

lemma closed_never_returns:
  "handle_recognition_results stop False outcomes accumulated = None"
  using returns_only_open[of stop False outcomes accumulated]
  by (cases "handle_recognition_results stop False outcomes accumulated") auto

lemma accumulate_fragment:
  "accumulate data acc = acc @ concat (map (\<lambda>f. f @ [SPACE]) (fragment_of data))"
  by (simp add: accumulate_def is_final_mode_def split: option.splits)

lemma handle_results_open:
  "open_until stop outcomes \<Longrightarrow>
   handle_recognition_results stop True outcomes acc
   = Some (acc @ concat (map (\<lambda>f. f @ [SPACE]) (fragments (heard stop outcomes))))"
proof (induction stop outcomes arbitrary: acc rule: open_until.induct)
  case (1 stop)
  show ?case
    by (subst handle_recognition_results.simps) (simp add: fragments_def)
next
  case (2 stop t rest)
  then show ?case
    by (subst handle_recognition_results.simps) (simp add: fragments_def)
next
  case (3 stop t rest)
  show ?case
  proof (cases "stop \<le> t")
    case True
    then show ?thesis
      by (subst handle_recognition_results.simps) (simp add: fragments_def)
  next
    case False
    with 3 have "open_until stop rest" by simp
    from "3.IH"[OF this] False show ?thesis
      by (subst handle_recognition_results.simps) simp
  qed
next
  case (4 stop t data rest)
  show ?case
  proof (cases "stop \<le> t \<or> msg_is_final data")
    case True
    then show ?thesis
      by (subst handle_recognition_results.simps)
         (auto simp: fragments_def accumulate_fragment)
  next
    case False
    with 4 have "open_until stop rest" by simp
    from "4.IH"[OF this, of "accumulate data acc"] False show ?thesis
      by (subst handle_recognition_results.simps)
         (simp add: fragments_def accumulate_fragment)
  qed
qed

lemma handle_results_closed:
  "\<not> open_until stop outcomes \<Longrightarrow>
   handle_recognition_results stop True outcomes acc = None"
proof (induction stop outcomes arbitrary: acc rule: open_until.induct)
  case (1 stop)
  then show ?case by simp
next
  case (2 stop t rest)
  then show ?case
    by (subst handle_recognition_results.simps) (simp add: closed_never_returns)
next
  case (3 stop t rest)
  then show ?case
    by (subst handle_recognition_results.simps) simp
next
  case (4 stop t data rest)
  then show ?case
    by (subst handle_recognition_results.simps) simp
qed


text \<open>
  C5, as the code has it. When \<open>connect\<close> and every send succeed and the backend does
  not close the connection before the task is done, \<open>recognize_audio\<close> returns. It
  has sent the offline configuration, then the PCM buffer in chunks that concatenate
  to the buffer, each of 960 bytes except possibly the last, which is not empty, then
  the end-of-speech configuration. It returns the finalized fragments received up to
  the first message with the final flag, or up to 60 seconds after the end-of-speech
  frame, each stripped, joined with single spaces, with the recognition tags cleaned
  away.
\<close>

theorem recognize_audio_protocol:
  assumes "connect_ok env" and "send_failure env = None"
      and "open_until (sent_at env + 60) (received env)"
  shows "recognize_audio pcm_data sample_rate env
           = Some (ConfigFrame (offline_config sample_rate)
                     # map AudioFrame (audio_chunks pcm_data 0) @ [ConfigFrame end_config],
                   clean_recognition_text
                     (join_fragments (fragments (heard (sent_at env + 60) (received env)))))
       \<and> concat (audio_chunks pcm_data 0) = pcm_data
       \<and> list_all (\<lambda>f. length f = 960) (butlast (audio_chunks pcm_data 0))
       \<and> list_all (\<lambda>f. 0 < length f \<and> length f \<le> 960) (audio_chunks pcm_data 0)"
proof -
  have "handle_recognition_results (sent_at env + 60) True (received env) []
        = Some (concat (map (\<lambda>f. f @ [SPACE])
                  (fragments (heard (sent_at env + 60) (received env)))))"
    using handle_results_open[OF assms(3), of "[]"] by simp
  then have "recognize_audio pcm_data sample_rate env
           = Some (ConfigFrame (offline_config sample_rate)
                     # map AudioFrame (audio_chunks pcm_data 0) @ [ConfigFrame end_config],
                   clean_recognition_text
                     (join_fragments (fragments (heard (sent_at env + 60) (received env)))))"
    using assms(1,2) by (simp add: recognize_audio_def Let_def join_fragments_def)
  moreover have "concat (audio_chunks pcm_data 0) = pcm_data"
    by (simp add: audio_chunks_concat)
  moreover note audio_chunks_sizes[of pcm_data 0]
  ultimately show ?thesis by (simp add: chunk_size_def)
qed

lemma audio_chunks_2000:
  "audio_chunks (replicate 2000 0) 0 = [replicate 960 0, replicate 960 0, replicate 80 0]"
  by (simp add: audio_chunks.simps[of _ 0] audio_chunks.simps[of _ 960]
      audio_chunks.simps[of _ 1920] audio_chunks.simps[of _ 2880] chunk_size_def Let_def)

lemma two_fragments_heard:
  "fragments (heard (sent_at two_fragments_env + 60) (received two_fragments_env))
   = [ustr ''a'', ustr ''b'']"
  by (simp add: two_fragments_env_def fragments_def batch_message_def get_mode_def
      is_final_mode_def strip_def lstrip_def rstrip_def ustr_def isspace_def)

theorem recognize_audio_protocol_witness:
  "connect_ok two_fragments_env \<and> send_failure two_fragments_env = None
   \<and> open_until (sent_at two_fragments_env + 60) (received two_fragments_env)
   \<and> recognize_audio (replicate 2000 0) 16000 two_fragments_env
       = Some ([ConfigFrame (offline_config 16000), AudioFrame (replicate 960 0),
                AudioFrame (replicate 960 0), AudioFrame (replicate 80 0),
                ConfigFrame end_config],
               clean_recognition_text (join_fragments [ustr ''a'', ustr ''b'']))"
proof -
  have a: "connect_ok two_fragments_env" and b: "send_failure two_fragments_env = None"
    by (simp_all add: two_fragments_env_def)
  have c: "open_until (sent_at two_fragments_env + 60) (received two_fragments_env)"
    by (simp add: two_fragments_env_def batch_message_def)
  from recognize_audio_protocol[OF a b c, of "replicate 2000 0" 16000] a b c
  show ?thesis by (simp add: two_fragments_heard audio_chunks_2000)
qed

lemma join_a_b:
  "clean_recognition_text (strip (ustr ''a'' @ SPACE # ustr ''b'' @ [SPACE])) = ustr ''a b''"
  by (simp add: strip_def lstrip_def rstrip_def ustr_def isspace_def
      SPACE_def clean_recognition_text_def match_tags3_def match_tag1_def match_tag_def)

text \<open>The result is not the plain concatenation of the fragments.\<close>

theorem recognize_audio_not_plain_concatenation:
  "fragments (heard (sent_at two_fragments_env + 60) (received two_fragments_env))
     = [ustr ''a'', ustr ''b'']
   \<and> map_option snd (recognize_audio [] 16000 two_fragments_env) = Some (ustr ''a b'')
   \<and> map_option snd (recognize_audio [] 16000 two_fragments_env)
       \<noteq> Some (concat (fragments
                 (heard (sent_at two_fragments_env + 60) (received two_fragments_env))))"
proof -
  have a: "connect_ok two_fragments_env" and b: "send_failure two_fragments_env = None"
    by (simp_all add: two_fragments_env_def)
  have c: "open_until (sent_at two_fragments_env + 60) (received two_fragments_env)"
    by (simp add: two_fragments_env_def batch_message_def)
  have r: "map_option snd (recognize_audio [] 16000 two_fragments_env) = Some (ustr ''a b'')"
    using handle_results_open[OF c, of "[]"] a b
    by (simp add: recognize_audio_def Let_def two_fragments_heard join_a_b)
  have "ustr ''a b'' \<noteq> concat [ustr ''a'', ustr ''b'']" by (simp add: ustr_def)
  then have "map_option snd (recognize_audio [] 16000 two_fragments_env)
       \<noteq> Some (concat [ustr ''a'', ustr ''b''])"
    by (simp only: r option.inject not_False_eq_True)
  with r show ?thesis by (simp only: two_fragments_heard simp_thms)
qed

text \<open>
  When the backend closes the connection before a final flag and before the end of the
  wait, \<open>recognize_audio\<close> does not return.
\<close>

lemma recognize_audio_hangs_after_close:
  assumes "connect_ok env" and "send_failure env = None"
      and "\<not> open_until (sent_at env + 60) (received env)"
  shows "recognize_audio pcm_data sample_rate env = None"
  using assms handle_results_closed[OF assms(3), of "[]"]
  by (simp add: recognize_audio_def Let_def)

lemma closed_env_hangs: "recognize_audio pcm_data sample_rate closed_env = None"
  by (rule recognize_audio_hangs_after_close)
     (simp_all add: closed_env_def batch_message_def)


section \<open>Resampling\<close>

lemma le16_range: "in_int16 (le16 lo hi)"
proof -
  let ?v = "uint lo + 256 * uint hi"
  have l: "0 \<le> uint lo" and h: "0 \<le> uint hi" by simp_all
  have l': "uint lo < 256" and h': "uint hi < 256"
    using uint_bounded[of lo] uint_bounded[of hi] by simp_all
  show ?thesis
  proof (cases "?v < 32768")
    case True
    then have "le16 lo hi = ?v" by (simp add: le16_def)
    with True l h show ?thesis unfolding in_int16_def by linarith
  next
    case False
    then have "le16 lo hi = ?v - 65536" by (simp add: le16_def)
    with False l' h' show ?thesis unfolding in_int16_def by linarith
  qed
qed

lemma unpack_h_range: "list_all in_int16 (unpack_h bs)"
  by (induction bs rule: unpack_h.induct) (simp_all add: le16_range)

lemma length_unpack_h: "length (unpack_h bs) = length bs div 2"
  by (induction bs rule: unpack_h.induct) simp_all

lemma trunc_range:
  assumes "of_int lo \<le> x" "x \<le> of_int hi" "lo \<le> 0" "0 \<le> hi"
  shows "lo \<le> trunc x \<and> trunc x \<le> hi"
proof (cases "0 \<le> x")
  case True
  then have f: "0 \<le> \<lfloor>x\<rfloor>" by simp
  have g: "\<lfloor>x\<rfloor> \<le> hi" using assms(2) by (simp add: floor_le_iff)
  have "trunc x = \<lfloor>x\<rfloor>" using True by (simp add: trunc_def)
  with f g assms(3) show ?thesis by linarith
next
  case False
  then have f: "\<lceil>x\<rceil> \<le> 0" by (simp add: ceiling_le_iff)
  have g: "lo \<le> \<lceil>x\<rceil>" using assms(1) by (simp add: le_ceiling_iff)
  have "trunc x = \<lceil>x\<rceil>" using False by (simp add: trunc_def)
  with f g assms(4) show ?thesis by linarith
qed

lemma convex_range:
  fixes a b t :: rat
  assumes "lo \<le> a" "a \<le> hi" "lo \<le> b" "b \<le> hi" "0 \<le> t" "t \<le> 1"
  shows "lo \<le> a * (1 - t) + b * t \<and> a * (1 - t) + b * t \<le> hi"
proof -
  have "a * (1 - t) \<le> hi * (1 - t)" "b * t \<le> hi * t"
    "lo * (1 - t) \<le> a * (1 - t)" "lo * t \<le> b * t"
    using assms by (simp_all add: mult_right_mono)
  then have "a * (1 - t) + b * t \<le> hi * (1 - t) + hi * t"
    "lo * (1 - t) + lo * t \<le> a * (1 - t) + b * t"
    by linarith+
  then show ?thesis by (simp add: algebra_simps)
qed

lemma trunc_frac:
  assumes "0 \<le> x"
  shows "0 \<le> trunc x" and "0 \<le> x - of_int (trunc x)" and "x - of_int (trunc x) \<le> 1"
  using assms by (simp_all add: trunc_def) linarith

lemma resample_sample_range:
  assumes "samples \<noteq> []" "list_all in_int16 samples" "0 < ratio"
  shows "in_int16 (resample_sample samples ratio i)"
proof -
  let ?pos = "of_nat i / ratio :: rat"
  let ?k = "trunc ?pos"
  have pos: "0 \<le> ?pos" using assms(3) by simp
  note fr = trunc_frac[OF pos]
  show ?thesis
  proof (cases "?k \<ge> int (length samples) - 1")
    case True
    have "last samples \<in> set samples" using assms(1) by simp
    with assms(2) have "in_int16 (last samples)" by (simp add: list_all_iff)
    with True show ?thesis by (simp add: resample_sample_def Let_def)
  next
    case False
    then have k: "nat ?k < length samples" "nat ?k + 1 < length samples"
      using fr(1) by linarith+
    then have a: "in_int16 (samples ! nat ?k)" and b: "in_int16 (samples ! (nat ?k + 1))"
      using assms(2) by (simp_all add: list_all_length)
    let ?a = "of_int (samples ! nat ?k) :: rat" and ?b = "of_int (samples ! (nat ?k + 1)) :: rat"
    let ?t = "?pos - of_int ?k"
    have "of_int (- 32768) \<le> ?a" "?a \<le> of_int 32767" "of_int (- 32768) \<le> ?b" "?b \<le> of_int 32767"
      using a b unfolding in_int16_def by (simp_all only: of_int_le_iff)
    from convex_range[OF this fr(2,3)]
    have "- 32768 \<le> trunc (?a * (1 - ?t) + ?b * ?t) \<and> trunc (?a * (1 - ?t) + ?b * ?t) \<le> 32767"
      by (intro trunc_range) simp_all
    with False show ?thesis by (simp add: resample_sample_def Let_def in_int16_def)
  qed
qed

lemma pack_all_ok:
  "list_all in_int16 vs \<Longrightarrow>
   \<exists>out. pack_all vs = Inr out \<and> length out = 2 * length vs"
  by (induction vs) (auto simp: pack_all_def pack_h_def)


lemma trunc_of_nat: "trunc (of_nat n) = int n"
  by (simp add: trunc_def)

lemma resample_audio_ok:
  assumes "length pcm_data = 2 * (length pcm_data div 2)"
      and "from_rate \<noteq> to_rate" and "0 < from_rate" and "0 < to_rate"
  shows "\<exists>out. resample_audio pcm_data from_rate to_rate = Inr out
           \<and> int (sample_count out)
               = trunc (of_nat (sample_count pcm_data) * (of_int to_rate / of_int from_rate))"
proof -
  let ?samples = "unpack_h pcm_data"
  let ?ratio = "of_int to_rate / of_int from_rate :: rat"
  let ?n = "nat (trunc (of_nat (length ?samples) * ?ratio))"
  let ?vs = "map (resample_sample ?samples ?ratio) [0 ..< ?n]"
  have ratio: "0 < ?ratio" using assms(3,4) by simp
  have nonneg: "0 \<le> trunc (of_nat (length ?samples) * ?ratio)"
    using ratio by (intro trunc_frac(1) mult_nonneg_nonneg) simp_all
  have "list_all in_int16 ?vs"
  proof (cases "?samples = []")
    case True
    then have "?n = 0" by (simp add: trunc_def)
    then show ?thesis by simp
  next
    case False
    then show ?thesis
      using resample_sample_range[OF False unpack_h_range ratio]
      by (simp add: list_all_iff)
  qed
  from pack_all_ok[OF this] obtain out
    where out: "pack_all ?vs = Inr out" "length out = 2 * length ?vs" by blast
  have "resample_audio pcm_data from_rate to_rate = Inr out"
    using assms out(1) by (simp add: resample_audio_def Let_def)
  moreover have "int (sample_count out)
      = trunc (of_nat (sample_count pcm_data) * ?ratio)"
    using out(2) nonneg by (simp add: sample_count_def length_unpack_h)
  ultimately show ?thesis by blast
qed

text \<open>
  C8. With equal source and target rate \<open>resample_audio\<close> returns its input
  unchanged. From 8000 Hz to 16000 Hz, on a buffer of whole 16-bit samples (an even
  number of bytes), it returns a buffer with exactly twice as many samples, which is
  within one sample of twice the input count; on a buffer with an odd number of bytes
  \<open>struct.unpack\<close> raises.
\<close>

theorem resample_audio_doubles:
  "resample_audio pcm_data rate rate = Inr pcm_data
   \<and> (even (length pcm_data) \<longrightarrow>
        (\<exists>out. resample_audio pcm_data 8000 16000 = Inr out
           \<and> sample_count out = 2 * sample_count pcm_data
           \<and> \<bar>int (sample_count out) - 2 * int (sample_count pcm_data)\<bar> \<le> 1))
   \<and> (odd (length pcm_data) \<longrightarrow> resample_audio pcm_data 8000 16000 = Inl StructError)"
proof -
  have same: "resample_audio pcm_data rate rate = Inr pcm_data"
    by (simp add: resample_audio_def)
  have odd: "odd (length pcm_data) \<longrightarrow> resample_audio pcm_data 8000 16000 = Inl StructError"
    by (auto simp: resample_audio_def elim: oddE)
  have ev: "\<exists>out. resample_audio pcm_data 8000 16000 = Inr out
           \<and> sample_count out = 2 * sample_count pcm_data
           \<and> \<bar>int (sample_count out) - 2 * int (sample_count pcm_data)\<bar> \<le> 1"
    if "even (length pcm_data)"
  proof -
    from that have len: "length pcm_data = 2 * (length pcm_data div 2)" by auto
    from resample_audio_ok[OF len, of 8000 16000] obtain out
      where out: "resample_audio pcm_data 8000 16000 = Inr out"
        "int (sample_count out) = trunc (of_nat (sample_count pcm_data) * (of_int 16000 / of_int 8000))"
      by auto
    have "of_nat (sample_count pcm_data) * (of_int 16000 / of_int 8000 :: rat)
          = of_nat (2 * sample_count pcm_data)"
      by simp
    with out(2) have "int (sample_count out) = int (2 * sample_count pcm_data)"
      by (simp only: trunc_of_nat)
    then have "sample_count out = 2 * sample_count pcm_data" by linarith
    with out(1) show ?thesis by auto
  qed
  from same odd ev show ?thesis by blast
qed

theorem resample_audio_doubles_witness:
  "even (length [0, 0, 10, 0, 0xF6, 0xFF :: byte])
   \<and> resample_audio [0, 0, 10, 0, 0xF6, 0xFF] 8000 16000
       = Inr [0, 0, 5, 0, 10, 0, 0, 0, 0xF6, 0xFF, 0xF6, 0xFF]
   \<and> sample_count [0, 0, 5, 0, 10, 0, 0, 0, 0xF6, 0xFF, 0xF6, 0xFF :: byte]
       = 2 * sample_count [0, 0, 10, 0, 0xF6, 0xFF :: byte]"
proof -
  let ?pcm = "[0, 0, 10, 0, 0xF6, 0xFF :: byte]"
  have e: "even (length ?pcm)" by simp
  have r: "resample_audio ?pcm 8000 16000
       = Inr [0, 0, 5, 0, 10, 0, 0, 0, 0xF6, 0xFF, 0xF6, 0xFF]"
    by code_simp
  from resample_audio_doubles[of ?pcm 8000] e r show ?thesis
    by (simp add: sample_count_def)
qed


end
